theory Spec2Isabelle
  imports Complex_Main "HOL-Library.Log_Nat" "HOL-Library.Word"
begin

section \<open>The arithmetic of the C types float and double\<close>

text \<open>
  The plugin computes in \<^verbatim>\<open>float\<close> and, where \<^verbatim>\<open>M_PI\<close> enters, in \<^verbatim>\<open>double\<close>.
  Both are IEEE 754 binary formats (binary32 and binary64), every operation rounding its
  exact result to the nearest value of its C type, ties to even: the arithmetic of a C
  implementation with Annex F and \<^verbatim>\<open>FLT_EVAL_METHOD\<close> 0, in the default rounding mode, that
  keeps no excess precision and fuses no multiplication with an addition.

  A value is a NaN, an infinity with its sign, or a finite number given by its sign bit
  (\<open>True\<close> is negative) and its magnitude, so that the two zeros are \<open>Fin False 0\<close> and
  \<open>Fin True 0\<close>.  Magnitudes are rationals: every finite value of a binary format
  is one, and so is every exact sum, product and quotient of two of them.  The NaNs are
  one value, their sign and payload deciding nothing here; the exception flags are left
  out.
\<close>

datatype fp = NaN | Infty bool | Fin bool rat

record format =
  prec :: nat
  emin :: int
  emax :: int

definition binary32 :: format where
  "binary32 = \<lparr>prec = 24, emin = - 126, emax = 127\<rparr>"

definition binary64 :: format where
  "binary64 = \<lparr>prec = 53, emin = - 1022, emax = 1023\<rparr>"

text \<open>\<open>ilog2 x\<close> is the exponent \<open>e\<close> with \<open>2\<^sup>e \<le> x < 2\<^sup>e\<^sup>+\<^sup>1\<close>, for \<open>x > 0\<close>.\<close>

definition ilog2 :: "rat \<Rightarrow> int" where
  "ilog2 x = (case quotient_of x of (a, b) \<Rightarrow>
     let k = bitlen a - bitlen b in if 2 powi k \<le> x then k else k - 1)"

text \<open>
  The exponent of the unit in the last place at magnitude \<open>x\<close>: below the smallest
  normal number the spacing stays that of the subnormals.
\<close>

definition qexp :: "format \<Rightarrow> rat \<Rightarrow> int" where
  "qexp f x = max (ilog2 x) (emin f) - (int (prec f) - 1)"

definition round_even :: "rat \<Rightarrow> int" where
  "round_even x = (let n = \<lfloor>x\<rfloor>; r = x - of_int n in
     if r < 1 / 2 then n else if 1 / 2 < r then n + 1 else if even n then n else n + 1)"

definition round_mag :: "format \<Rightarrow> rat \<Rightarrow> rat" where
  "round_mag f x = of_int (round_even (x / 2 powi qexp f x)) * 2 powi qexp f x"

text \<open>Rounding a magnitude \<open>x \<ge> 0\<close> with sign \<open>s\<close>; past the largest finite value it overflows.\<close>

definition fround :: "format \<Rightarrow> bool \<Rightarrow> rat \<Rightarrow> fp" where
  "fround f s x = (let r = round_mag f x in if 2 powi (emax f + 1) \<le> r then Infty s else Fin s r)"

definition representable :: "format \<Rightarrow> rat \<Rightarrow> bool" where
  "representable f x \<longleftrightarrow> 0 \<le> x \<and> x < 2 powi (emax f + 1) \<and>
     of_int \<lfloor>x / 2 powi qexp f x\<rfloor> = x / 2 powi qexp f x"

text \<open>The values an object of the format can hold.\<close>

fun is_fp :: "format \<Rightarrow> fp \<Rightarrow> bool" where
  "is_fp f NaN = True"
| "is_fp f (Infty s) = True"
| "is_fp f (Fin s m) = representable f m"

fun is_finite :: "fp \<Rightarrow> bool" where
  "is_finite (Fin s m) = True"
| "is_finite x = False"

definition sval :: "bool \<Rightarrow> rat \<Rightarrow> rat" where
  "sval s m = (if s then - m else m)"

fun fneg :: "fp \<Rightarrow> fp" where
  "fneg NaN = NaN"
| "fneg (Infty s) = Infty (\<not> s)"
| "fneg (Fin s m) = Fin (\<not> s) m"

fun fadd :: "format \<Rightarrow> fp \<Rightarrow> fp \<Rightarrow> fp" where
  "fadd f NaN y = NaN"
| "fadd f x NaN = NaN"
| "fadd f (Infty s) (Infty t) = (if s = t then Infty s else NaN)"
| "fadd f (Infty s) (Fin t b) = Infty s"
| "fadd f (Fin s a) (Infty t) = Infty t"
| "fadd f (Fin s a) (Fin t b) =
     (let v = sval s a + sval t b in
      if v = 0 then Fin (s \<and> t) 0 else fround f (v < 0) \<bar>v\<bar>)"

definition fsub :: "format \<Rightarrow> fp \<Rightarrow> fp \<Rightarrow> fp" where
  "fsub f x y = fadd f x (fneg y)"

fun fmul :: "format \<Rightarrow> fp \<Rightarrow> fp \<Rightarrow> fp" where
  "fmul f NaN y = NaN"
| "fmul f x NaN = NaN"
| "fmul f (Infty s) (Infty t) = Infty (s \<noteq> t)"
| "fmul f (Infty s) (Fin t b) = (if b = 0 then NaN else Infty (s \<noteq> t))"
| "fmul f (Fin s a) (Infty t) = (if a = 0 then NaN else Infty (s \<noteq> t))"
| "fmul f (Fin s a) (Fin t b) = fround f (s \<noteq> t) (a * b)"

fun fdiv :: "format \<Rightarrow> fp \<Rightarrow> fp \<Rightarrow> fp" where
  "fdiv f NaN y = NaN"
| "fdiv f x NaN = NaN"
| "fdiv f (Infty s) (Infty t) = NaN"
| "fdiv f (Infty s) (Fin t b) = Infty (s \<noteq> t)"
| "fdiv f (Fin s a) (Infty t) = Fin (s \<noteq> t) 0"
| "fdiv f (Fin s a) (Fin t b) =
     (if b = 0 then (if a = 0 then NaN else Infty (s \<noteq> t))
      else fround f (s \<noteq> t) (a / b))"

text \<open>
  Conversion to a format: exact from \<^verbatim>\<open>float\<close> to \<^verbatim>\<open>double\<close>, rounding from
  \<^verbatim>\<open>double\<close> to \<^verbatim>\<open>float\<close>.
\<close>

fun fcvt :: "format \<Rightarrow> fp \<Rightarrow> fp" where
  "fcvt f NaN = NaN"
| "fcvt f (Infty s) = Infty s"
| "fcvt f (Fin s m) = fround f s m"

text \<open>The comparisons \<^verbatim>\<open><\<close>, \<^verbatim>\<open><=\<close> and \<^verbatim>\<open>==\<close> of C: false whenever an operand is a NaN.\<close>

fun fp_lt :: "fp \<Rightarrow> fp \<Rightarrow> bool" where
  "fp_lt NaN y = False"
| "fp_lt x NaN = False"
| "fp_lt (Infty s) (Infty t) = (s \<and> \<not> t)"
| "fp_lt (Infty s) (Fin t b) = s"
| "fp_lt (Fin s a) (Infty t) = (\<not> t)"
| "fp_lt (Fin s a) (Fin t b) = (sval s a < sval t b)"

fun fp_eq :: "fp \<Rightarrow> fp \<Rightarrow> bool" where
  "fp_eq NaN y = False"
| "fp_eq x NaN = False"
| "fp_eq (Infty s) (Infty t) = (s = t)"
| "fp_eq (Infty s) (Fin t b) = False"
| "fp_eq (Fin s a) (Infty t) = False"
| "fp_eq (Fin s a) (Fin t b) = (sval s a = sval t b)"

definition fp_le :: "fp \<Rightarrow> fp \<Rightarrow> bool" where
  "fp_le x y \<longleftrightarrow> fp_lt x y \<or> fp_eq x y"

text \<open>The constants of the source: float literals, and \<^verbatim>\<open>M_PI\<close> of \<^verbatim>\<open>math.h\<close>,
  the double nearest to \<open>\<pi>\<close> (bit pattern \<^verbatim>\<open>0x400921FB54442D18\<close>).\<close>

abbreviation f_lit :: "rat \<Rightarrow> fp" where
  "f_lit x \<equiv> Fin False x"

definition M_PI :: fp where
  "M_PI = Fin False (884279719003555 / 2 ^ 48)"

section \<open>The plugin\<close>

subsection \<open>Data\<close>

record PluginState =
  cutoff_freq :: fp
  sample_rate :: fp
  previous_output :: fp
  frame_count :: "64 word"

record PluginInfo =
  name :: string
  version :: string
  author :: string
  description :: string
  abi_version :: "32 word"

definition PLUGIN_ABI_VERSION :: "32 word" where
  "PLUGIN_ABI_VERSION = 1"

text \<open>
  Memory holds the instances the plugin has allocated and the float objects of the host.
  An instance handle is \<open>None\<close> (\<^verbatim>\<open>NULL\<close>) or the address of an instance.
\<close>

type_synonym addr = nat

record memory =
  states :: "addr \<rightharpoonup> PluginState"
  slots :: "addr \<rightharpoonup> fp"

text \<open>
  A pointer to \<^verbatim>\<open>float\<close>, the type of the parameter \<^verbatim>\<open>ffb_out\<close>, is \<open>None\<close> or designates
  a float object: one of the host's, outside every instance, or one of the three float
  members of an instance.  Nothing in the code keeps a caller from passing a pointer of
  the second kind: the handle \<open>h\<close> itself, converted to \<^verbatim>\<open>float *\<close>, points to the first
  member, \<open>cutoff_freq\<close>, of the instance at \<open>h\<close>.  The member \<open>frame_count\<close> is a
  \<^verbatim>\<open>uint64_t\<close>; a store to it through a pointer to \<^verbatim>\<open>float\<close> is undefined, and no pointer
  of this type designates it.
\<close>

datatype float_member = At_cutoff_freq | At_sample_rate | At_previous_output

datatype float_ptr = Outside addr | Inside addr float_member

fun member_value :: "float_member \<Rightarrow> PluginState \<Rightarrow> fp" where
  "member_value At_cutoff_freq st = cutoff_freq st"
| "member_value At_sample_rate st = sample_rate st"
| "member_value At_previous_output st = previous_output st"

fun member_update :: "float_member \<Rightarrow> fp \<Rightarrow> PluginState \<Rightarrow> PluginState" where
  "member_update At_cutoff_freq v st = st\<lparr>cutoff_freq := v\<rparr>"
| "member_update At_sample_rate v st = st\<lparr>sample_rate := v\<rparr>"
| "member_update At_previous_output v st = st\<lparr>previous_output := v\<rparr>"

text \<open>Reading and writing through a pointer to float; \<open>None\<close> when it designates no live object.\<close>

fun load_float :: "memory \<Rightarrow> float_ptr \<Rightarrow> fp option" where
  "load_float m (Outside out) = slots m out"
| "load_float m (Inside b f) = map_option (member_value f) (states m b)"

fun store_float :: "memory \<Rightarrow> float_ptr \<Rightarrow> fp \<Rightarrow> memory option" where
  "store_float m (Outside out) v =
     (case slots m out of
        None \<Rightarrow> None
      | Some old \<Rightarrow> Some (m\<lparr>slots := (slots m)(out \<mapsto> v)\<rparr>))"
| "store_float m (Inside b f) v =
     (case states m b of
        None \<Rightarrow> None
      | Some st \<Rightarrow> Some (m\<lparr>states := (states m)(b \<mapsto> member_update f v st)\<rparr>))"

subsection \<open>Operations\<close>

text \<open>
  \<^verbatim>\<open>plugin_create\<close>: \<open>alloc\<close> is what \<^verbatim>\<open>malloc\<close> answers, \<open>None\<close> when it fails and the
  address of the new block otherwise.  The configuration bytes and their length (a
  \<^verbatim>\<open>size_t\<close>, taken 64 bits wide) are parameters the body never reads.
\<close>

definition plugin_create ::
  "memory \<Rightarrow> addr option \<Rightarrow> 8 word list option \<Rightarrow> 64 word \<Rightarrow> addr option \<times> memory" where
  "plugin_create m alloc config config_len =
     (case alloc of
        None \<Rightarrow> (None, m)
      | Some a \<Rightarrow>
          (Some a,
           m\<lparr>states := (states m)(a \<mapsto>
              \<lparr>cutoff_freq = f_lit 50, sample_rate = f_lit 1000,
               previous_output = f_lit 0, frame_count = 0\<rparr>)\<rparr>))"

text \<open>
  The filter of \<^verbatim>\<open>plugin_process\<close>, one definition for each of its three locals.
  \<^verbatim>\<open>2.0f * M_PI * state->cutoff_freq\<close> and the quotient \<^verbatim>\<open>1.0f / ...\<close> are double
  operations (\<^verbatim>\<open>M_PI\<close> is a double): their float operands convert to double without
  change, every float being a double (lemma \<open>float_to_double\<close> below).  The initialisation of \<^verbatim>\<open>float rc\<close> converts the
  quotient to float; the rest is float arithmetic.
\<close>

definition filter_rc :: "fp \<Rightarrow> fp" where
  "filter_rc cutoff =
     fcvt binary32
       (fdiv binary64 (f_lit 1) (fmul binary64 (fmul binary64 (f_lit 2) M_PI) cutoff))"

definition filter_alpha :: "fp \<Rightarrow> fp \<Rightarrow> fp" where
  "filter_alpha cutoff dt = (let rc = filter_rc cutoff in fdiv binary32 dt (fadd binary32 rc dt))"

definition filter_output :: "fp \<Rightarrow> fp \<Rightarrow> fp \<Rightarrow> fp \<Rightarrow> fp" where
  "filter_output cutoff prev ffb_in dt =
     (let alpha = filter_alpha cutoff dt in
      fadd binary32 (fmul binary32 alpha ffb_in)
        (fmul binary32 (fsub binary32 (f_lit 1) alpha) prev))"

text \<open>
  \<^verbatim>\<open>plugin_process\<close> returns its status and the memory it leaves.  The result is \<open>None\<close>
  where C leaves the behaviour undefined: a pointer that is neither null nor designates a
  live object.  After the null checks the body reads the state and computes the output,
  and then writes three times, in this order: the member \<open>previous_output\<close>, the object
  that \<^verbatim>\<open>ffb_out\<close> designates, and the frame counter, which it reads again for the
  increment.  The output pointer may designate a member of the instance, so each write
  acts on the memory that the one before it has left.
\<close>

definition plugin_process ::
  "memory \<Rightarrow> addr option \<Rightarrow> fp \<Rightarrow> fp \<Rightarrow> fp \<Rightarrow> fp \<Rightarrow> float_ptr option \<Rightarrow>
     (int \<times> memory) option" where
  "plugin_process m state_ptr ffb_in wheel_speed wheel_angle dt ffb_out =
     (case (state_ptr, ffb_out) of
        (Some a, Some p) \<Rightarrow>
          (case states m a of
             None \<Rightarrow> None
           | Some st \<Rightarrow>
               (let output = filter_output (cutoff_freq st) (previous_output st) ffb_in dt;
                    m1 = m\<lparr>states := (states m)(a \<mapsto> st\<lparr>previous_output := output\<rparr>)\<rparr>
                in case store_float m1 p output of
                     None \<Rightarrow> None
                   | Some m2 \<Rightarrow>
                       (case states m2 a of
                          None \<Rightarrow> None
                        | Some st2 \<Rightarrow>
                            Some (0, m2\<lparr>states := (states m2)(a \<mapsto>
                                          st2\<lparr>frame_count := frame_count st2 + 1\<rparr>)\<rparr>))))
      | _ \<Rightarrow> Some (- 1, m))"

text \<open>\<^verbatim>\<open>plugin_destroy\<close>: \<^verbatim>\<open>free\<close> of a block that is not live is undefined.\<close>

definition plugin_destroy :: "memory \<Rightarrow> addr option \<Rightarrow> memory option" where
  "plugin_destroy m state =
     (case state of
        None \<Rightarrow> Some m
      | Some a \<Rightarrow>
          (if a \<in> dom (states m) then Some (m\<lparr>states := (states m)(a := None)\<rparr>) else None))"

definition plugin_get_info :: PluginInfo where
  "plugin_get_info =
     \<lparr>name = ''Sample DSP Filter'', version = ''1.0.0'', author = ''Racing Wheel Suite'',
      description = ''Simple low-pass filter for force feedback'',
      abi_version = PLUGIN_ABI_VERSION\<rparr>"

text \<open>The table of the four operations that the plugin exports.\<close>

record PluginVTable =
  create :: "memory \<Rightarrow> addr option \<Rightarrow> 8 word list option \<Rightarrow> 64 word \<Rightarrow> addr option \<times> memory"
  process ::
    "memory \<Rightarrow> addr option \<Rightarrow> fp \<Rightarrow> fp \<Rightarrow> fp \<Rightarrow> fp \<Rightarrow> float_ptr option \<Rightarrow>
       (int \<times> memory) option"
  destroy :: "memory \<Rightarrow> addr option \<Rightarrow> memory option"
  get_info :: PluginInfo

definition get_plugin_vtable :: PluginVTable where
  "get_plugin_vtable =
     \<lparr>create = plugin_create, process = plugin_process, destroy = plugin_destroy,
      get_info = plugin_get_info\<rparr>"

subsection \<open>The host's loop\<close>

text \<open>
  The host calls \<^verbatim>\<open>process\<close> once per tick, one call after the other.  A call is the
  argument list of \<^verbatim>\<open>plugin_process\<close>; \<open>process_calls\<close> runs a list of calls in order
  and collects the statuses.
\<close>

record call =
  arg_state :: "addr option"
  arg_ffb_in :: fp
  arg_wheel_speed :: fp
  arg_wheel_angle :: fp
  arg_dt :: fp
  arg_ffb_out :: "float_ptr option"

definition process_call :: "memory \<Rightarrow> call \<Rightarrow> (int \<times> memory) option" where
  "process_call m c =
     plugin_process m (arg_state c) (arg_ffb_in c) (arg_wheel_speed c) (arg_wheel_angle c)
       (arg_dt c) (arg_ffb_out c)"

fun process_calls :: "memory \<Rightarrow> call list \<Rightarrow> (int list \<times> memory) option" where
  "process_calls m [] = Some ([], m)"
| "process_calls m (c # cs) =
     (case process_call m c of
        None \<Rightarrow> None
      | Some (r, m') \<Rightarrow>
          (case process_calls m' cs of
             None \<Rightarrow> None
           | Some (rs, m'') \<Rightarrow> Some (r # rs, m'')))"

text \<open>The pointers of a call are usable: each is null or designates a live object.\<close>

definition call_ok :: "memory \<Rightarrow> call \<Rightarrow> bool" where
  "call_ok m c \<longleftrightarrow>
     (case arg_state c of None \<Rightarrow> True | Some a \<Rightarrow> a \<in> dom (states m)) \<and>
     (case arg_ffb_out c of None \<Rightarrow> True | Some p \<Rightarrow> load_float m p \<noteq> None)"

text \<open>
  The output pointer of a call stays clear of the configuration of every instance: it is
  null, or designates a float of the host, or a member \<open>previous_output\<close>.
\<close>

fun clear_of_config :: "float_ptr option \<Rightarrow> bool" where
  "clear_of_config None = True"
| "clear_of_config (Some (Outside out)) = True"
| "clear_of_config (Some (Inside b f)) = (f = At_previous_output)"

text \<open>The successful calls on the instance at \<open>a\<close>, among calls \<open>cs\<close> with statuses \<open>rs\<close>.\<close>

definition successes_on :: "addr \<Rightarrow> call list \<Rightarrow> int list \<Rightarrow> nat" where
  "successes_on a cs rs = length (filter (\<lambda>(c, r). arg_state c = Some a \<and> r = 0) (zip cs rs))"

text \<open>The status of a call is decided by the two null checks alone.\<close>

definition status_of :: "call \<Rightarrow> int" where
  "status_of c = (if arg_state c \<noteq> None \<and> arg_ffb_out c \<noteq> None then 0 else - 1)"

text \<open>The floats of an instance are values of the type \<^verbatim>\<open>float\<close>.\<close>

definition state_ok :: "PluginState \<Rightarrow> bool" where
  "state_ok st \<longleftrightarrow>
     is_fp binary32 (cutoff_freq st) \<and> is_fp binary32 (sample_rate st) \<and>
     is_fp binary32 (previous_output st)"

subsection \<open>A worked example\<close>

text \<open>
  A host with one output slot, its address 0 among the host's floats, the instance it
  creates at address 0 among the instances, and one tick: input 1, \<open>dt = 2\<^sup>-\<^sup>1\<^sup>0\<close> seconds.
\<close>

definition host0 :: memory where
  "host0 = \<lparr>states = Map.empty, slots = [0 \<mapsto> f_lit 0]\<rparr>"

definition inst0 :: memory where
  "inst0 = snd (plugin_create host0 (Some 0) None 0)"

definition tick0 :: call where
  "tick0 = \<lparr>arg_state = Some 0, arg_ffb_in = f_lit 1, arg_wheel_speed = f_lit 0,
     arg_wheel_angle = f_lit 0, arg_dt = f_lit (1 / 1024), arg_ffb_out = Some (Outside 0)\<rparr>"

text \<open>The example after its tick: the instance has run one frame and holds the first output.\<close>

definition ran0 :: memory where
  "ran0 = \<lparr>states = [0 \<mapsto> \<lparr>cutoff_freq = f_lit 50, sample_rate = f_lit 1000,
       previous_output = Fin False (1969391 / 8388608), frame_count = 1\<rparr>],
     slots = [0 \<mapsto> Fin False (1969391 / 8388608)]\<rparr>"

text \<open>A host whose instance at address 0 has run seven frames and holds the output 3/4.\<close>

definition held0 :: memory where
  "held0 = \<lparr>states = [0 \<mapsto> \<lparr>cutoff_freq = f_lit 50, sample_rate = f_lit 1000,
       previous_output = f_lit (3 / 4), frame_count = 7\<rparr>],
     slots = [0 \<mapsto> f_lit 0]\<rparr>"

section \<open>Powers of two and the binary exponent\<close>

lemma p2_pos: "0 < (2::rat) powi e"
  by simp

lemma p2_add: "(2::rat) powi (a + b) = 2 powi a * 2 powi b"
  by (simp add: power_int_add)

lemma p2_diff: "(2::rat) powi (a - b) = 2 powi a / 2 powi b"
  by (simp add: power_int_diff)

lemma p2_mono: "a \<le> b \<Longrightarrow> (2::rat) powi a \<le> 2 powi b"
  by (rule power_int_increasing) simp_all

lemma p2_strict: "a < b \<Longrightarrow> (2::rat) powi a < 2 powi b"
  by (rule power_int_strict_increasing) simp_all

lemma p2_less_cancel: "(2::rat) powi a < 2 powi b \<Longrightarrow> a < b"
  using p2_mono [of b a] by (cases "a < b") auto

lemma p2_int: "0 \<le> n \<Longrightarrow> (2::rat) powi n = of_int (2 ^ nat n)"
  by (simp add: power_int_def)

lemma quotient_of_pos:
  assumes "0 < x" "quotient_of x = (a, b)"
  shows "0 < a" "0 < b" "x = of_int a / of_int b"
proof -
  show b: "0 < b" using assms(2) by (rule quotient_of_denom_pos)
  show x: "x = of_int a / of_int b" using assms(2) by (rule quotient_of_div)
  show "0 < a" using assms(1) b x by (simp add: zero_less_divide_iff)
qed

lemma bitlen_rat_bounds:
  assumes "0 < (a::int)"
  shows "(2::rat) powi (bitlen a - 1) \<le> of_int a" "of_int a < (2::rat) powi (bitlen a)"
proof -
  from bitlen_bounds [OF assms]
  have lo: "2 ^ nat (bitlen a - 1) \<le> a" and hi: "a < 2 ^ nat (bitlen a)" by simp_all
  have b1: "1 \<le> bitlen a" using assms bitlen_eq_zero_iff [of a] bitlen_nonneg [of a] by simp
  have "(of_int (2 ^ nat (bitlen a - 1)) :: rat) \<le> of_int a" using lo by (simp only: of_int_le_iff)
  then show "(2::rat) powi (bitlen a - 1) \<le> of_int a" using b1 by (simp add: p2_int)
  have "(of_int a :: rat) < of_int (2 ^ nat (bitlen a))" using hi by (simp only: of_int_less_iff)
  then show "of_int a < (2::rat) powi (bitlen a)" using b1 by (simp add: p2_int)
qed

lemma ilog2_bounds:
  assumes "0 < x"
  shows "2 powi (ilog2 x) \<le> x" "x < 2 powi (ilog2 x + 1)"
proof -
  obtain a b where q: "quotient_of x = (a, b)" by (cases "quotient_of x")
  note ab = quotient_of_pos [OF assms q]
  let ?k = "bitlen a - bitlen b"
  have a_lo: "(2::rat) powi (bitlen a - 1) \<le> of_int a" and a_hi: "of_int a < (2::rat) powi (bitlen a)"
    using bitlen_rat_bounds [OF ab(1)] by simp_all
  have b_lo: "(2::rat) powi (bitlen b - 1) \<le> of_int b" and b_hi: "of_int b < (2::rat) powi (bitlen b)"
    using bitlen_rat_bounds [OF ab(2)] by simp_all
  have bpos: "(0::rat) < of_int b" using ab(2) by simp
  have up: "x < 2 powi (?k + 1)"
  proof -
    have "of_int a < (2::rat) powi (?k + 1) * 2 powi (bitlen b - 1)"
      using a_hi by (simp flip: p2_add)
    also have "\<dots> \<le> 2 powi (?k + 1) * of_int b"
      using b_lo by (simp add: mult_left_mono)
    finally show ?thesis using bpos ab(3) by (simp add: pos_divide_less_eq)
  qed
  have low: "2 powi (?k - 1) \<le> x"
  proof -
    have "(2::rat) powi (?k - 1) * of_int b \<le> 2 powi (?k - 1) * 2 powi (bitlen b)"
      using b_hi by (simp add: mult_left_mono)
    also have "\<dots> = 2 powi (bitlen a - 1)" by (simp flip: p2_add)
    also have "\<dots> \<le> of_int a" by (rule a_lo)
    finally show ?thesis using bpos ab(3) by (simp add: pos_le_divide_eq)
  qed
  show "2 powi (ilog2 x) \<le> x"
    using low by (simp add: ilog2_def q Let_def)
  show "x < 2 powi (ilog2 x + 1)"
    using up by (simp add: ilog2_def q Let_def not_le)
qed

lemma ilog2_unique:
  assumes "2 powi e \<le> x" "x < 2 powi (e + 1)"
  shows "ilog2 x = e"
proof -
  have pos: "0 < x" using assms(1) p2_pos [of e] by (rule less_le_trans [rotated])
  note b = ilog2_bounds [OF pos]
  have "(2::rat) powi e < 2 powi (ilog2 x + 1)" using assms(1) b(2) by (rule le_less_trans)
  then have 1: "e < ilog2 x + 1" by (rule p2_less_cancel)
  have "(2::rat) powi (ilog2 x) < 2 powi (e + 1)" using b(1) assms(2) by (rule le_less_trans)
  then have 2: "ilog2 x < e + 1" by (rule p2_less_cancel)
  from 1 2 show ?thesis by simp
qed

lemma ilog2_mono:
  assumes "0 < x" "x \<le> y"
  shows "ilog2 x \<le> ilog2 y"
proof -
  have ypos: "0 < y" using assms by simp
  have "(2::rat) powi (ilog2 x) \<le> x" using ilog2_bounds(1) [OF assms(1)] .
  also have "x \<le> y" by fact
  also have "y < 2 powi (ilog2 y + 1)" using ilog2_bounds(2) [OF ypos] .
  finally have "ilog2 x < ilog2 y + 1" by (rule p2_less_cancel)
  then show ?thesis by simp
qed


lemma round_even_ge: "of_int k \<le> x \<Longrightarrow> k \<le> round_even x"
proof -
  assume "of_int k \<le> x"
  then have "k \<le> \<lfloor>x\<rfloor>" by (simp add: le_floor_iff)
  then show ?thesis by (simp add: round_even_def Let_def)
qed

lemma round_even_le: "x \<le> of_int k \<Longrightarrow> round_even x \<le> k"
proof (cases "x = of_int k")
  case True
  then show ?thesis by (simp add: round_even_def Let_def)
next
  case False
  assume "x \<le> of_int k"
  with False have "x < of_int k" by simp
  then have "\<lfloor>x\<rfloor> < k" by (simp add: floor_less_iff)
  then show ?thesis by (simp add: round_even_def Let_def)
qed

lemma round_even_of_int: "round_even (of_int k) = k"
  by (simp add: round_even_def Let_def)

lemma round_even_floor: "of_int \<lfloor>x\<rfloor> = x \<Longrightarrow> of_int (round_even x) = x"
  by (metis round_even_of_int)

lemma round_mag_nonneg:
  assumes "0 \<le> x"
  shows "0 \<le> round_mag f x"
proof -
  have "(of_int 0 :: rat) \<le> x / 2 powi qexp f x" using assms by simp
  then have "0 \<le> round_even (x / 2 powi qexp f x)" by (rule round_even_ge)
  then show ?thesis by (simp add: round_mag_def)
qed

lemma round_mag_repr: "representable f y \<Longrightarrow> round_mag f y = y"
  by (simp add: representable_def round_mag_def round_even_floor)

lemma qexp_eq: "max (ilog2 x) (emin f) = max (ilog2 y) (emin f) \<Longrightarrow> qexp f x = qexp f y"
  by (simp add: qexp_def)

lemma round_mag_ge_p2:
  assumes p: "0 < prec f" and e: "emin f \<le> ilog2 x" and x: "0 < x"
  shows "2 powi (ilog2 x) \<le> round_mag f x"
proof -
  let ?q = "qexp f x"
  have q: "?q = ilog2 x - (int (prec f) - 1)" using e by (simp add: qexp_def max_def)
  have "(2::rat) powi (int (prec f) - 1) = 2 powi (ilog2 x) / 2 powi ?q"
    by (simp add: q flip: p2_diff)
  also have "\<dots> \<le> x / 2 powi ?q"
    using ilog2_bounds(1) [OF x] by (simp add: divide_right_mono)
  finally have "of_int (2 ^ nat (int (prec f) - 1)) \<le> x / 2 powi ?q"
    using p by (simp add: p2_int)
  then have "2 ^ nat (int (prec f) - 1) \<le> round_even (x / 2 powi ?q)" by (rule round_even_ge)
  then have "(of_int (2 ^ nat (int (prec f) - 1)) :: rat) \<le> of_int (round_even (x / 2 powi ?q))"
    by (simp only: of_int_le_iff)
  then have "(2::rat) powi (int (prec f) - 1) * 2 powi ?q \<le> round_mag f x"
    using p by (simp add: p2_int round_mag_def mult_right_mono)
  then show ?thesis by (simp add: q flip: p2_add)
qed

lemma round_mag_le_p2:
  assumes p: "0 < prec f" and x: "0 < x"
  shows "round_mag f x \<le> 2 powi (max (ilog2 x) (emin f) + 1)"
proof -
  let ?E = "max (ilog2 x) (emin f)"
  let ?q = "qexp f x"
  have q: "?q = ?E - (int (prec f) - 1)" by (simp add: qexp_def)
  have "x < 2 powi (ilog2 x + 1)" using ilog2_bounds(2) [OF x] .
  also have "\<dots> \<le> 2 powi (?E + 1)" by (rule p2_mono) simp
  finally have "x / 2 powi ?q \<le> 2 powi (?E + 1) / 2 powi ?q"
    by (simp add: divide_right_mono)
  also have "\<dots> = 2 powi (int (prec f))" by (simp add: q flip: p2_diff)
  finally have "x / 2 powi ?q \<le> of_int (2 ^ prec f)" by simp
  then have "round_even (x / 2 powi ?q) \<le> 2 ^ prec f" by (rule round_even_le)
  then have "(of_int (round_even (x / 2 powi ?q)) :: rat) \<le> of_int (2 ^ prec f)"
    by (simp only: of_int_le_iff)
  then have "round_mag f x \<le> 2 powi (int (prec f)) * 2 powi ?q"
    by (simp add: round_mag_def mult_right_mono)
  moreover have "(2::rat) powi (int (prec f)) * 2 powi ?q = 2 powi (?E + 1)"
    unfolding q by (subst p2_add [symmetric]) simp
  ultimately show ?thesis by (simp only:)
qed

lemma round_mag_same_q_ge:
  assumes "representable f y" "qexp f y = qexp f x" "y \<le> x"
  shows "y \<le> round_mag f x"
proof -
  let ?q = "qexp f x"
  have k: "of_int \<lfloor>y / 2 powi ?q\<rfloor> = y / 2 powi ?q"
    using assms(1,2) by (simp add: representable_def)
  have "y / 2 powi ?q \<le> x / 2 powi ?q" using assms(3) by (simp add: divide_right_mono)
  then have "of_int \<lfloor>y / 2 powi ?q\<rfloor> \<le> x / 2 powi ?q" by (simp only: k)
  then have "\<lfloor>y / 2 powi ?q\<rfloor> \<le> round_even (x / 2 powi ?q)" by (rule round_even_ge)
  then have "(of_int \<lfloor>y / 2 powi ?q\<rfloor> :: rat) \<le> of_int (round_even (x / 2 powi ?q))"
    by (simp only: of_int_le_iff)
  then show ?thesis
    unfolding k round_mag_def by (simp add: pos_divide_le_eq)
qed

lemma round_mag_same_q_le:
  assumes "representable f y" "qexp f y = qexp f x" "x \<le> y"
  shows "round_mag f x \<le> y"
proof -
  let ?q = "qexp f x"
  have k: "of_int \<lfloor>y / 2 powi ?q\<rfloor> = y / 2 powi ?q"
    using assms(1,2) by (simp add: representable_def)
  have "x / 2 powi ?q \<le> y / 2 powi ?q" using assms(3) by (simp add: divide_right_mono)
  then have "x / 2 powi ?q \<le> of_int \<lfloor>y / 2 powi ?q\<rfloor>" by (simp only: k)
  then have "round_even (x / 2 powi ?q) \<le> \<lfloor>y / 2 powi ?q\<rfloor>" by (rule round_even_le)
  then have "(of_int (round_even (x / 2 powi ?q)) :: rat) \<le> of_int \<lfloor>y / 2 powi ?q\<rfloor>"
    by (simp only: of_int_le_iff)
  then show ?thesis
    unfolding k round_mag_def by (simp add: pos_le_divide_eq)
qed

lemma round_mag_ge:
  assumes p: "0 < prec f" and y: "representable f y" and le: "y \<le> x"
  shows "y \<le> round_mag f x"
proof (cases "0 < y")
  case False
  have "0 \<le> y" using y by (simp add: representable_def)
  with False have "y = 0" by simp
  then show ?thesis using le round_mag_nonneg [of x f] by simp
next
  case True
  then have x: "0 < x" using le by simp
  have m: "ilog2 y \<le> ilog2 x" using True le by (rule ilog2_mono)
  show ?thesis
  proof (cases "max (ilog2 y) (emin f) = max (ilog2 x) (emin f)")
    case True
    then have "qexp f y = qexp f x" by (rule qexp_eq)
    with y show ?thesis using le by (rule round_mag_same_q_ge)
  next
    case False
    with m have e: "emin f \<le> ilog2 x" and lt: "ilog2 y < ilog2 x" by (auto simp: max_def split: if_splits)
    have "y < 2 powi (ilog2 y + 1)" using ilog2_bounds(2) [OF \<open>0 < y\<close>] .
    also have "\<dots> \<le> 2 powi (ilog2 x)" using lt by (intro p2_mono) simp
    also have "\<dots> \<le> round_mag f x" using p e x by (rule round_mag_ge_p2)
    finally show ?thesis by simp
  qed
qed

lemma round_mag_le:
  assumes p: "0 < prec f" and y: "representable f y" and x0: "0 \<le> x" and le: "x \<le> y"
  shows "round_mag f x \<le> y"
proof (cases "0 < x")
  case False
  with x0 have "x = 0" by simp
  then have "round_mag f x = 0" by (simp add: round_mag_def round_even_def)
  then show ?thesis using y by (simp add: representable_def)
next
  case True
  then have ypos: "0 < y" using le by simp
  have m: "ilog2 x \<le> ilog2 y" using True le by (rule ilog2_mono)
  show ?thesis
  proof (cases "max (ilog2 y) (emin f) = max (ilog2 x) (emin f)")
    case True
    then have "qexp f y = qexp f x" by (rule qexp_eq)
    with y show ?thesis using le by (rule round_mag_same_q_le)
  next
    case False
    with m have lt: "max (ilog2 x) (emin f) + 1 \<le> ilog2 y" by (auto simp: max_def split: if_splits)
    have "round_mag f x \<le> 2 powi (max (ilog2 x) (emin f) + 1)" using p True by (rule round_mag_le_p2)
    also have "\<dots> \<le> 2 powi (ilog2 y)" using lt by (rule p2_mono)
    also have "\<dots> \<le> y" using ilog2_bounds(1) [OF ypos] .
    finally show ?thesis .
  qed
qed

section \<open>Rounding against representable bounds\<close>

lemma prec32: "0 < prec binary32" and prec64: "0 < prec binary64"
  by (simp_all add: binary32_def binary64_def)

lemma representable_p2:
  assumes "0 < prec f" "emin f - (int (prec f) - 1) \<le> e" "e \<le> emax f"
  shows "representable f (2 powi e)"
proof -
  have il: "ilog2 (2 powi e) = e"
    by (rule ilog2_unique) (simp_all add: p2_strict)
  let ?q = "qexp f (2 powi e)"
  have q: "?q = max e (emin f) - (int (prec f) - 1)" by (simp add: qexp_def il)
  have ge: "0 \<le> e - ?q" using assms by (simp add: q max_def)
  have "(2::rat) powi e / 2 powi ?q = 2 powi (e - ?q)" by (simp add: p2_diff)
  also have "\<dots> = of_int (2 ^ nat (e - ?q))" using ge by (rule p2_int)
  finally have "of_int \<lfloor>(2::rat) powi e / 2 powi ?q\<rfloor> = (2::rat) powi e / 2 powi ?q"
    by (simp only: floor_of_int)
  moreover have "(2::rat) powi e < 2 powi (emax f + 1)" using assms(3) by (intro p2_strict) simp
  ultimately show ?thesis by (simp add: representable_def)
qed

lemma representable_least:
  assumes "representable f m" "0 < m"
  shows "2 powi (emin f - (int (prec f) - 1)) \<le> m"
proof -
  let ?q = "qexp f m"
  have k: "of_int \<lfloor>m / 2 powi ?q\<rfloor> = m / 2 powi ?q" using assms(1) by (simp add: representable_def)
  have "0 < m / 2 powi ?q" using assms(2) by simp
  then have "(0::rat) < of_int \<lfloor>m / 2 powi ?q\<rfloor>" by (simp only: k)
  then have "1 \<le> \<lfloor>m / 2 powi ?q\<rfloor>" by simp
  then have "(1::rat) \<le> of_int \<lfloor>m / 2 powi ?q\<rfloor>" by (simp only: of_int_1_le_iff)
  then have "1 \<le> m / 2 powi ?q" by (simp only: k)
  then have "2 powi ?q \<le> m" by (simp add: pos_le_divide_eq)
  moreover have "(2::rat) powi (emin f - (int (prec f) - 1)) \<le> 2 powi ?q"
    by (rule p2_mono) (simp add: qexp_def)
  ultimately show ?thesis by simp
qed

lemma fround_cases:
  "fround f s x = Infty s \<or> fround f s x = Fin s (round_mag f x) \<and> round_mag f x < 2 powi (emax f + 1)"
  by (simp add: fround_def Let_def not_le)

lemma fround_fin:
  "round_mag f x < 2 powi (emax f + 1) \<Longrightarrow> fround f s x = Fin s (round_mag f x)"
  by (simp add: fround_def Let_def)

lemma fround_repr:
  "representable f x \<Longrightarrow> fround f s x = Fin s x"
  by (simp add: fround_fin round_mag_repr representable_def)

lemma round_mag_0: "round_mag f 0 = 0"
  by (simp add: round_mag_def round_even_def)

lemma fround_0: "fround f s 0 = Fin s 0"
  by (simp add: fround_def round_mag_0 not_le)

text \<open>A result between two values of the format rounds to a finite value between them.\<close>

lemma fround_between:
  assumes p: "0 < prec f" and lo: "representable f l" and hi: "representable f h"
    and lx: "l \<le> x" and xh: "x \<le> h"
  shows "\<exists>r. fround f s x = Fin s r \<and> l \<le> r \<and> r \<le> h"
proof -
  have l0: "0 \<le> l" using lo by (simp add: representable_def)
  have x0: "0 \<le> x" using l0 lx by simp
  have 1: "l \<le> round_mag f x" using p lo lx by (rule round_mag_ge)
  have 2: "round_mag f x \<le> h" using p hi x0 xh by (rule round_mag_le)
  have "h < 2 powi (emax f + 1)" using hi by (simp add: representable_def)
  with 2 have "round_mag f x < 2 powi (emax f + 1)" by simp
  then have "fround f s x = Fin s (round_mag f x)" by (rule fround_fin)
  with 1 2 show ?thesis by simp
qed

lemma fround_above:
  assumes p: "0 < prec f" and lo: "representable f l" and lx: "l \<le> x"
  shows "fround f s x = Infty s \<or> (\<exists>r. fround f s x = Fin s r \<and> l \<le> r)"
  using fround_cases [of f s x] round_mag_ge [OF p lo lx] by auto

section \<open>The rounding is to nearest, ties to even\<close>

text \<open>
  What \<open>round_mag\<close> returns is a value of the format unless it overflows, no value of the
  format is nearer to the exact result, and between two nearest ones the even multiple of
  the unit in the last place is taken: it is the rounding IEEE 754 calls
  roundTiesToEven, the default of C.
\<close>

lemma representable_0: "representable f 0"
  by (simp add: representable_def)

lemma round_mag_representable:
  assumes p: "0 < prec f" and x: "0 \<le> x" and fin: "round_mag f x < 2 powi (emax f + 1)"
  shows "representable f (round_mag f x)"
proof (cases "0 < x \<and> 0 < round_mag f x")
  case False
  have "0 \<le> round_mag f x" using x by (rule round_mag_nonneg)
  with False x have "round_mag f x = 0" by (cases "x = 0") (auto simp: round_mag_0)
  then show ?thesis by (simp add: representable_0)
next
  case True
  then have x0: "0 < x" and r0: "0 < round_mag f x" by simp_all
  let ?E = "max (ilog2 x) (emin f)"
  let ?r = "round_mag f x"
  have up: "?r \<le> 2 powi (?E + 1)" using p x0 by (rule round_mag_le_p2)
  show ?thesis
  proof (cases "?r = 2 powi (?E + 1)")
    case True
    have "(2::rat) powi (?E + 1) < 2 powi (emax f + 1)" using fin True by simp
    then have "?E + 1 < emax f + 1" by (rule p2_less_cancel)
    then have "representable f (2 powi (?E + 1))" using p by (intro representable_p2) simp_all
    then show ?thesis by (simp only: True)
  next
    case False
    with up have lt: "?r < 2 powi (?E + 1)" by simp
    have "(2::rat) powi (ilog2 ?r) \<le> ?r" using ilog2_bounds(1) [OF r0] .
    also note lt
    finally have "ilog2 ?r < ?E + 1" by (rule p2_less_cancel)
    then have le: "ilog2 ?r \<le> ?E" by simp
    have E: "max (ilog2 ?r) (emin f) = ?E"
    proof (cases "emin f \<le> ilog2 x")
      case True
      have "2 powi (ilog2 x) \<le> ?r" using p True x0 by (rule round_mag_ge_p2)
      then have "ilog2 ?r = ilog2 x" using lt True by (intro ilog2_unique) (simp_all add: max_def)
      then show ?thesis by simp
    next
      case False
      then show ?thesis using le by (simp add: max_def)
    qed
    then have q: "qexp f ?r = qexp f x" by (rule qexp_eq)
    have "?r / 2 powi qexp f ?r = of_int (round_even (x / 2 powi qexp f x))"
      unfolding q by (simp add: round_mag_def)
    then have "of_int \<lfloor>?r / 2 powi qexp f ?r\<rfloor> = ?r / 2 powi qexp f ?r"
      by (simp only: floor_of_int)
    then show ?thesis using r0 fin by (simp add: representable_def)
  qed
qed

lemma is_fp_fround: "0 < prec f \<Longrightarrow> 0 \<le> x \<Longrightarrow> is_fp f (fround f s x)"
  using round_mag_representable [of f x]
  by (simp add: fround_def Let_def not_le)

lemma is_fp_fadd: "is_fp binary32 (fadd binary32 x y)"
  by (cases x; cases y) (simp_all add: Let_def representable_0 is_fp_fround prec32)

lemma is_fp_filter_output: "is_fp binary32 (filter_output c p x dt)"
  by (simp add: filter_output_def Let_def is_fp_fadd)

lemma round_even_nearest: "\<bar>of_int (round_even x) - x\<bar> \<le> \<bar>of_int k - x\<bar>"
proof -
  define n where "n = \<lfloor>x\<rfloor>"
  define r where "r = x - of_int n"
  have r: "0 \<le> r" "r < 1" by (simp_all add: r_def n_def) linarith+
  have x: "x = of_int n + r" by (simp add: r_def)
  have k: "r \<le> \<bar>of_int k - x\<bar>" if "k \<le> n" 
  proof -
    have "(of_int k :: rat) \<le> of_int n" using that by simp
    then show ?thesis using r by (simp add: x abs_if)
  qed
  have k': "1 - r \<le> \<bar>of_int k - x\<bar>" if "n + 1 \<le> k"
  proof -
    have "(of_int (n + 1) :: rat) \<le> of_int k" using that by (simp only: of_int_le_iff)
    then show ?thesis using r by (simp add: x abs_if)
  qed
  have cases: "k \<le> n \<or> n + 1 \<le> k" by linarith
  show ?thesis
  proof (cases "round_even x = n")
    case True
    then have h: "r \<le> 1 / 2"
      by (auto simp: round_even_def Let_def n_def r_def split: if_splits)
    have "\<bar>of_int (round_even x) - x\<bar> = r"
      using r unfolding True r_def by (simp add: abs_if)
    then show ?thesis using cases k k' h by fastforce
  next
    case False
    then have rn: "round_even x = n + 1" and h: "1 / 2 \<le> r"
      by (auto simp: round_even_def Let_def n_def r_def split: if_splits)
    have "\<bar>of_int (round_even x) - x\<bar> = 1 - r"
      using r unfolding rn r_def by (simp add: abs_if)
    then show ?thesis using cases k k' h by fastforce
  qed
qed

lemma round_even_tie: "x - of_int \<lfloor>x\<rfloor> = 1 / 2 \<Longrightarrow> even (round_even x)"
  by (simp add: round_even_def Let_def)

lemma round_mag_grid:
  "\<bar>round_mag f x - x\<bar> \<le> \<bar>of_int k * 2 powi qexp f x - x\<bar>"
proof -
  let ?u = "(2::rat) powi qexp f x"
  have u: "0 < ?u" by simp
  have e: "a * ?u - x = (a - x / ?u) * ?u" for a by (simp add: left_diff_distrib)
  have "\<bar>round_mag f x - x\<bar> = \<bar>of_int (round_even (x / ?u)) - x / ?u\<bar> * ?u"
    unfolding round_mag_def e abs_mult by simp
  also have "\<dots> \<le> \<bar>of_int k - x / ?u\<bar> * ?u"
    using round_even_nearest [of "x / ?u" k] by (intro mult_right_mono) simp_all
  also have "\<dots> = \<bar>of_int k * ?u - x\<bar>"
    unfolding e abs_mult by simp
  finally show ?thesis .
qed

lemma round_mag_nearest:
  assumes p: "0 < prec f" and x: "0 \<le> x" and y: "representable f y"
  shows "\<bar>round_mag f x - x\<bar> \<le> \<bar>y - x\<bar>"
proof (cases "0 < x \<and> 0 < y")
  case False
  have y0: "0 \<le> y" using y by (simp add: representable_def)
  show ?thesis
  proof (cases "x = 0")
    case True
    then show ?thesis by (simp add: round_mag_0)
  next
    case False
    with \<open>\<not> (0 < x \<and> 0 < y)\<close> x y0 have "y = 0" by auto
    then show ?thesis using round_mag_grid [of f x 0] by simp
  qed
next
  case True
  then have x0: "0 < x" and y0: "0 < y" by simp_all
  let ?E = "max (ilog2 x) (emin f)"
  let ?q = "qexp f x"
  have q: "?q = ?E - (int (prec f) - 1)" by (simp add: qexp_def)
  consider (same) "max (ilog2 y) (emin f) = ?E" | (below) "max (ilog2 y) (emin f) < ?E"
    | (above) "?E < max (ilog2 y) (emin f)" by linarith
  then show ?thesis
  proof cases
    case same
    then have "qexp f y = ?q" by (rule qexp_eq)
    then have "of_int \<lfloor>y / 2 powi ?q\<rfloor> = y / 2 powi ?q" using y by (simp add: representable_def)
    then have "of_int \<lfloor>y / 2 powi ?q\<rfloor> * 2 powi ?q = y / 2 powi ?q * 2 powi ?q"
      by (simp only:)
    then have "of_int \<lfloor>y / 2 powi ?q\<rfloor> * 2 powi ?q = y" by simp
    with round_mag_grid [of f x "\<lfloor>y / 2 powi ?q\<rfloor>"] show ?thesis by simp
  next
    case below
    then have E: "?E = ilog2 x" and lt: "ilog2 y < ilog2 x" by (auto simp: max_def split: if_splits)
    have "y < 2 powi (ilog2 y + 1)" using ilog2_bounds(2) [OF y0] .
    also have "\<dots> \<le> 2 powi (ilog2 x)" using lt by (intro p2_mono) simp
    finally have yl: "y < 2 powi (ilog2 x)" .
    have xl: "2 powi (ilog2 x) \<le> x" using ilog2_bounds(1) [OF x0] .
    have "(2::rat) powi (ilog2 x) = 2 powi (int (prec f) - 1) * 2 powi ?q"
      unfolding q E by (subst p2_add [symmetric]) simp
    also have "\<dots> = of_int (2 ^ nat (int (prec f) - 1)) * 2 powi ?q"
      using p by (subst p2_int) simp_all
    finally have g: "(2::rat) powi (ilog2 x) = of_int (2 ^ nat (int (prec f) - 1)) * 2 powi ?q" .
    have "\<bar>round_mag f x - x\<bar> \<le> \<bar>2 powi (ilog2 x) - x\<bar>"
      unfolding g by (rule round_mag_grid)
    also have "\<dots> \<le> \<bar>y - x\<bar>" using yl xl by simp
    finally show ?thesis .
  next
    case above
    then have lt: "?E + 1 \<le> ilog2 y" by (auto simp: max_def split: if_splits)
    have "x < 2 powi (ilog2 x + 1)" using ilog2_bounds(2) [OF x0] .
    also have "\<dots> \<le> 2 powi (?E + 1)" by (intro p2_mono) simp
    finally have xl: "x < 2 powi (?E + 1)" .
    have "(2::rat) powi (?E + 1) \<le> 2 powi (ilog2 y)" using lt by (rule p2_mono)
    also have "\<dots> \<le> y" using ilog2_bounds(1) [OF y0] .
    finally have yl: "2 powi (?E + 1) \<le> y" .
    have "(2::rat) powi (?E + 1) = 2 powi (int (prec f)) * 2 powi ?q"
      unfolding q by (subst p2_add [symmetric]) simp
    also have "\<dots> = of_int (2 ^ prec f) * 2 powi ?q" by simp
    finally have g: "(2::rat) powi (?E + 1) = of_int (2 ^ prec f) * 2 powi ?q" .
    have "\<bar>round_mag f x - x\<bar> \<le> \<bar>2 powi (?E + 1) - x\<bar>"
      unfolding g by (rule round_mag_grid)
    also have "\<dots> \<le> \<bar>y - x\<bar>" using yl xl by simp
    finally show ?thesis .
  qed
qed

section \<open>The time constant\<close>

lemma two_pi_repr: "representable binary64 (884279719003555 / 140737488355328)"
proof -
  have il: "ilog2 (884279719003555 / 140737488355328) = 2"
    by (rule ilog2_unique) simp_all
  have "(884279719003555 / 140737488355328 :: rat) < 2 powi 3" by simp
  also have "\<dots> \<le> 2 powi (emax binary64 + 1)" by (rule p2_mono) (simp add: binary64_def)
  finally show ?thesis
    by (simp add: representable_def qexp_def il binary64_def)
qed

lemma two_pi: "fmul binary64 (f_lit 2) M_PI = Fin False (884279719003555 / 140737488355328)"
  using fround_repr [OF two_pi_repr, of False] by (simp add: M_PI_def)

lemma two_pi_bounds: "(4::rat) \<le> 884279719003555 / 140737488355328" "(884279719003555 / 140737488355328 :: rat) \<le> 8"
  by simp_all

lemma rep64_p2: "- 1074 \<le> e \<Longrightarrow> e \<le> 1023 \<Longrightarrow> representable binary64 (2 powi e)"
  by (rule representable_p2) (simp_all add: binary64_def)

lemma rep32_p2: "- 149 \<le> e \<Longrightarrow> e \<le> 127 \<Longrightarrow> representable binary32 (2 powi e)"
  by (rule representable_p2) (simp_all add: binary32_def)

lemma rep32_least: "representable binary32 m \<Longrightarrow> 0 < m \<Longrightarrow> 2 powi (- 149) \<le> m"
  using representable_least [of binary32 m] by (simp add: binary32_def)

lemma rep32_less: "representable binary32 m \<Longrightarrow> m < 2 powi 128"
  by (simp add: representable_def binary32_def)

text \<open>
  Every float is a double, so the conversion of a float operand to double returns it
  unchanged.
\<close>

lemma float_is_double:
  assumes "representable binary32 m"
  shows "representable binary64 m"
proof (cases "m = 0")
  case True
  then show ?thesis by (simp add: representable_0)
next
  case False
  have m0: "0 < m" using assms False by (simp add: representable_def)
  have "(2::rat) powi (- 149) \<le> m" using assms m0 by (rule rep32_least)
  also have "m < 2 powi (ilog2 m + 1)" using ilog2_bounds(2) [OF m0] .
  finally have "- 149 < ilog2 m + 1" by (rule p2_less_cancel)
  then have e: "- 150 < ilog2 m" by simp
  let ?q = "qexp binary32 m"
  let ?d = "qexp binary64 m"
  have d: "0 \<le> ?q - ?d" using e by (simp add: qexp_def binary32_def binary64_def max_def)
  have k: "of_int \<lfloor>m / 2 powi ?q\<rfloor> = m / 2 powi ?q" using assms by (simp add: representable_def)
  have "m / 2 powi ?d = m / 2 powi ?q * 2 powi (?q - ?d)" by (simp add: p2_diff)
  also have "\<dots> = of_int \<lfloor>m / 2 powi ?q\<rfloor> * of_int (2 ^ nat (?q - ?d))"
    unfolding k using d by (simp only: p2_int)
  also have "\<dots> = of_int (\<lfloor>m / 2 powi ?q\<rfloor> * 2 ^ nat (?q - ?d))" by simp
  finally have "of_int \<lfloor>m / 2 powi ?d\<rfloor> = m / 2 powi ?d" by (simp only: floor_of_int)
  moreover have "m < 2 powi (emax binary64 + 1)"
  proof -
    have "m < 2 powi 128" using assms by (rule rep32_less)
    also have "\<dots> \<le> 2 powi (emax binary64 + 1)" by (rule p2_mono) (simp add: binary64_def)
    finally show ?thesis .
  qed
  ultimately show ?thesis using m0 by (simp add: representable_def)
qed

lemma float_to_double: "is_fp binary32 x \<Longrightarrow> fcvt binary64 x = x \<and> is_fp binary64 x"
  by (cases x) (simp_all add: float_is_double fround_repr)

lemma scaled_two_pi:
  assumes m: "representable binary32 m" and a: "2 powi a \<le> m" "- 1076 \<le> a"
  shows "\<exists>r. fmul binary64 (fmul binary64 (f_lit 2) M_PI) (Fin False m) = Fin False r \<and>
    2 powi (a + 2) \<le> r \<and> r \<le> 2 powi 131"
proof -
  let ?t = "884279719003555 / 140737488355328 :: rat"
  have m0: "0 < m" using a(1) p2_pos [of a] by (rule less_le_trans [rotated])
  have "(2::rat) powi (a + 2) = 4 * 2 powi a" by (simp add: p2_add)
  also have "\<dots> \<le> ?t * m" using two_pi_bounds(1) a(1) m0 by (intro mult_mono) simp_all
  finally have lo: "2 powi (a + 2) \<le> ?t * m" .
  have "?t * m \<le> 8 * 2 powi 128"
    using two_pi_bounds(2) rep32_less [OF m] m0 by (intro mult_mono) simp_all
  also have "\<dots> = 2 powi 131" by simp
  finally have hi: "?t * m \<le> 2 powi 131" .
  have a2: "a + 2 \<le> 1023"
  proof -
    have "(2::rat) powi (a + 2) < 2 powi 132" using lo hi p2_strict [of 131 132] by simp
    then have "a + 2 < 132" by (rule p2_less_cancel)
    then show ?thesis by simp
  qed
  have rl: "representable binary64 (2 powi (a + 2))" using a(2) a2 by (intro rep64_p2) simp_all
  have rh: "representable binary64 (2 powi 131)" by (rule rep64_p2) simp_all
  have "\<exists>r. fround binary64 False (?t * m) = Fin False r \<and> 2 powi (a + 2) \<le> r \<and> r \<le> 2 powi 131"
    using prec64 rl rh lo hi by (rule fround_between)
  then show ?thesis by (simp add: two_pi)
qed

lemma reciprocal_double:
  assumes r: "2 powi a \<le> r" "r \<le> 2 powi b" and ab: "- 1023 \<le> a" "b \<le> 1074"
  shows "\<exists>u. fdiv binary64 (f_lit 1) (Fin False r) = Fin False u \<and>
    2 powi (- b) \<le> u \<and> u \<le> 2 powi (- a)"
proof -
  have r0: "0 < r" using r(1) p2_pos [of a] by (rule less_le_trans [rotated])
  have le: "a \<le> b"
  proof -
    have "(2::rat) powi a < 2 powi (b + 1)" using r p2_strict [of b "b + 1"] by simp
    then have "a < b + 1" by (rule p2_less_cancel)
    then show ?thesis by simp
  qed
  have lo: "2 powi (- b) \<le> 1 / r"
    using r(2) r0 by (simp add: power_int_minus_divide frac_le)
  have hi: "1 / r \<le> 2 powi (- a)"
    using r(1) r0 by (simp add: power_int_minus_divide frac_le)
  have rl: "representable binary64 (2 powi (- b))" using ab le by (intro rep64_p2) simp_all
  have rh: "representable binary64 (2 powi (- a))" using ab le by (intro rep64_p2) simp_all
  have "\<exists>u. fround binary64 False (1 / r) = Fin False u \<and> 2 powi (- b) \<le> u \<and> u \<le> 2 powi (- a)"
    using prec64 rl rh lo hi by (rule fround_between)
  then show ?thesis using r0 by simp
qed

lemma rep131: "representable binary32 (2 powi (- 131))"
  by (rule rep32_p2) simp_all

lemma rep2: "representable binary32 (2 powi (- 2))"
  by (rule rep32_p2) simp_all

lemma filter_rc_positive:
  assumes m: "representable binary32 m" "0 < m"
  shows "filter_rc (Fin False m) = Infty False \<or>
    (\<exists>r. filter_rc (Fin False m) = Fin False r \<and> 2 powi (- 131) \<le> r)"
proof -
  have "2 powi (- 149) \<le> m" using m by (rule rep32_least)
  from scaled_two_pi [OF m(1) this]
  obtain r1 where r1: "fmul binary64 (fmul binary64 (f_lit 2) M_PI) (Fin False m) = Fin False r1"
    "2 powi (- 147) \<le> r1" "r1 \<le> 2 powi 131" by auto
  from reciprocal_double [OF r1(2,3)]
  obtain r2 where r2: "fdiv binary64 (f_lit 1) (Fin False r1) = Fin False r2" "2 powi (- 131) \<le> r2"
    by auto
  have "fround binary32 False r2 = Infty False \<or>
    (\<exists>r. fround binary32 False r2 = Fin False r \<and> 2 powi (- 131) \<le> r)"
    using prec32 rep131 r2(2) by (rule fround_above)
  then show ?thesis unfolding filter_rc_def r1 r2 by simp
qed

lemma filter_rc_small:
  assumes m: "representable binary32 m" "1 \<le> m"
  shows "\<exists>r. filter_rc (Fin False m) = Fin False r \<and> 2 powi (- 131) \<le> r \<and> r \<le> 1 / 4"
proof -
  have "2 powi 0 \<le> m" using m(2) by simp
  from scaled_two_pi [OF m(1) this]
  obtain r1 where r1: "fmul binary64 (fmul binary64 (f_lit 2) M_PI) (Fin False m) = Fin False r1"
    "2 powi 2 \<le> r1" "r1 \<le> 2 powi 131" by auto
  from reciprocal_double [OF r1(2,3)]
  obtain r2 where r2: "fdiv binary64 (f_lit 1) (Fin False r1) = Fin False r2" "2 powi (- 131) \<le> r2"
    "r2 \<le> 2 powi (- 2)" by auto
  have "\<exists>r. fround binary32 False r2 = Fin False r \<and> 2 powi (- 131) \<le> r \<and> r \<le> 2 powi (- 2)"
    using prec32 rep131 rep2 r2(2,3) by (rule fround_between)
  then show ?thesis unfolding filter_rc_def r1 r2 by simp
qed

section \<open>The sum and the quotient of the smoothing factor\<close>

lemma rep32_149: "representable binary32 (2 powi (- 149))"
  by (rule rep32_p2) simp_all

lemma rep32_one: "representable binary32 1"
  using rep32_p2 [of 0] by simp

lemma representableI:
  assumes "2 powi e \<le> x" "x < 2 powi (e + 1)" "emin f \<le> e" "e \<le> emax f"
    and "x = of_int k * 2 powi (e - (int (prec f) - 1))"
  shows "representable f x"
proof -
  have il: "ilog2 x = e" using assms(1,2) by (rule ilog2_unique)
  have q: "qexp f x = e - (int (prec f) - 1)" using assms(3) by (simp add: qexp_def il max_def)
  have "x / 2 powi qexp f x = of_int k" unfolding q by (subst assms(5)) simp
  then have "of_int \<lfloor>x / 2 powi qexp f x\<rfloor> = x / 2 powi qexp f x" by (simp only: floor_of_int)
  moreover have "0 \<le> x" by (rule order_trans [OF less_imp_le [OF p2_pos] assms(1)])
  moreover have "x < 2 powi (emax f + 1)"
    using assms(2) p2_mono [of "e + 1" "emax f + 1"] assms(4) by simp
  ultimately show ?thesis by (simp add: representable_def)
qed

lemma rep32_top: "representable binary32 (3 * 2 powi 126)"
  by (rule representableI [where e = 127 and k = "3 * 2 ^ 22"]) (simp_all add: binary32_def)

lemma sum_positive:
  assumes rc: "rc = Infty False \<or> (\<exists>r. rc = Fin False r \<and> 2 powi (- 131) \<le> r)"
    and dt: "fp_le (f_lit 0) dt"
  shows "fadd binary32 rc dt = Infty False \<or>
    (\<exists>u. fadd binary32 rc dt = Fin False u \<and> 2 powi (- 131) \<le> u)"
proof (cases dt)
  case NaN
  with dt show ?thesis by (simp add: fp_le_def)
next
  case (Infty t)
  with dt have "dt = Infty False" by (simp add: fp_le_def)
  with rc show ?thesis by auto
next
  case (Fin s d)
  with dt have d: "0 \<le> sval s d" by (auto simp: fp_le_def sval_def split: if_splits)
  from rc show ?thesis
  proof
    assume "rc = Infty False"
    with Fin show ?thesis by simp
  next
    assume "\<exists>r. rc = Fin False r \<and> 2 powi (- 131) \<le> r"
    then obtain r where r: "rc = Fin False r" "2 powi (- 131) \<le> r" by auto
    have r0: "0 < r" using r(2) p2_pos [of "- 131"] by (rule less_le_trans [rotated])
    let ?v = "r + sval s d"
    have v: "2 powi (- 131) \<le> ?v" "0 < ?v" using r(2) r0 d by simp_all
    have eq: "fadd binary32 rc dt = fround binary32 False ?v"
      using v(2) by (simp add: r Fin Let_def sval_def)
    show ?thesis unfolding eq using prec32 rep131 v(1) by (rule fround_above)
  qed
qed

lemma round_even_absorb:
  assumes "0 \<le> e" "e < 1 / 2"
  shows "round_even (of_int k + e) = k"
proof -
  have "\<lfloor>of_int k + e\<rfloor> = k" using assms by (intro floor_unique) simp_all
  then show ?thesis using assms by (simp add: round_even_def Let_def)
qed

lemma fp_eq_zero: "fp_eq dt (f_lit 0) \<Longrightarrow> \<exists>s. dt = Fin s 0"
  by (cases dt) (auto simp: sval_def split: if_splits)

lemma alpha_zero_dt:
  assumes rc: "rc = Infty False \<or> (\<exists>r. rc = Fin False r \<and> 2 powi (- 131) \<le> r)"
  shows "fdiv binary32 (Fin s 0) (fadd binary32 rc (Fin s 0)) = Fin s 0"
proof -
  have "fp_le (f_lit 0) (Fin s 0)" by (simp add: fp_le_def sval_def)
  with rc have "fadd binary32 rc (Fin s 0) = Infty False \<or>
    (\<exists>u. fadd binary32 rc (Fin s 0) = Fin False u \<and> 2 powi (- 131) \<le> u)"
    by (rule sum_positive)
  then show ?thesis
  proof
    assume "fadd binary32 rc (Fin s 0) = Infty False"
    then show ?thesis by simp
  next
    assume "\<exists>u. fadd binary32 rc (Fin s 0) = Fin False u \<and> 2 powi (- 131) \<le> u"
    then obtain u where u: "fadd binary32 rc (Fin s 0) = Fin False u" "2 powi (- 131) \<le> u" by auto
    have "0 < u" using u(2) p2_pos [of "- 131"] by (rule less_le_trans [rotated])
    then show ?thesis unfolding u(1) by (simp add: fround_0)
  qed
qed

lemma one_minus_zero: "fsub binary32 (f_lit 1) (Fin s 0) = Fin False 1"
  using fround_repr [OF rep32_one, of False]
  by (simp add: fsub_def sval_def Let_def)

lemma one_times: "is_fp binary32 p \<Longrightarrow> fmul binary32 (Fin False 1) p = p"
  by (cases p) (simp_all add: fround_repr)

lemma zero_plus:
  assumes "is_fp binary32 p"
  shows "(fadd binary32 (Fin z 0) p = p \<or> fadd binary32 (Fin z 0) p = Fin False 0 \<and> p = Fin True 0) \<and>
    (p = NaN \<or> fp_eq (fadd binary32 (Fin z 0) p) p)"
proof (cases p)
  case NaN
  then show ?thesis by simp
next
  case (Infty t)
  then show ?thesis by simp
next
  case (Fin t q)
  with assms have q: "representable binary32 q" by simp
  then have q0: "0 \<le> q" by (simp add: representable_def)
  show ?thesis
  proof (cases "q = 0")
    case True
    then show ?thesis by (auto simp: Fin sval_def Let_def)
  next
    case False
    with q0 have "0 < q" by simp
    then show ?thesis using q by (simp add: Fin sval_def Let_def fround_repr)
  qed
qed

lemma output_hold:
  assumes "is_fp binary32 p"
  shows "(fadd binary32 (fmul binary32 (Fin s 0) (Fin t x))
           (fmul binary32 (fsub binary32 (f_lit 1) (Fin s 0)) p) = p \<or>
     fadd binary32 (fmul binary32 (Fin s 0) (Fin t x))
           (fmul binary32 (fsub binary32 (f_lit 1) (Fin s 0)) p) = Fin False 0 \<and> p = Fin True 0) \<and>
    (p = NaN \<or>
     fp_eq (fadd binary32 (fmul binary32 (Fin s 0) (Fin t x))
           (fmul binary32 (fsub binary32 (f_lit 1) (Fin s 0)) p)) p)"
  using zero_plus [OF assms, of "s \<noteq> t"]
  by (simp add: one_minus_zero one_times [OF assms] fround_0)

lemma rep32_50: "representable binary32 50"
  by (rule representableI [where e = 5 and k = "50 * 2 ^ 18"]) (simp_all add: binary32_def)

lemma filter_rc_50: "\<exists>r. filter_rc (f_lit 50) = Fin False r \<and> 2 powi (- 131) \<le> r \<and> r \<le> 1 / 4"
  by (rule filter_rc_small [OF rep32_50]) simp

section \<open>Runs of the host's loop\<close>

lemma live_float_dom:
  "load_float m p \<noteq> None \<longleftrightarrow>
     (case p of Outside out \<Rightarrow> out \<in> dom (slots m) | Inside b f \<Rightarrow> b \<in> dom (states m))"
  by (cases p) auto

lemma call_ok_dom:
  "dom (states m') = dom (states m) \<Longrightarrow> dom (slots m') = dom (slots m) \<Longrightarrow>
   call_ok m' c = call_ok m c"
  by (simp only: call_ok_def live_float_dom)

lemma state_self_update:
  "\<exists>y n. (st :: PluginState) = st\<lparr>previous_output := y, frame_count := n\<rparr>"
  by (rule exI [of _ "previous_output st"], rule exI [of _ "frame_count st"]) simp

lemma state_output_update:
  "\<exists>z n. (st :: PluginState)\<lparr>previous_output := y\<rparr> = st\<lparr>previous_output := z, frame_count := n\<rparr>"
  by (rule exI [of _ y], rule exI [of _ "frame_count st"]) simp

text \<open>The memory that a successful call leaves, by the kind of its output pointer.\<close>

lemma process_outside:
  assumes "states m a = Some st" "slots m out = Some old"
  shows "plugin_process m (Some a) ffb_in wheel_speed wheel_angle dt (Some (Outside out)) =
    Some (0, m\<lparr>states := (states m)(a \<mapsto>
                   st\<lparr>previous_output := filter_output (cutoff_freq st) (previous_output st) ffb_in dt,
                      frame_count := frame_count st + 1\<rparr>),
                slots := (slots m)(out \<mapsto> filter_output (cutoff_freq st) (previous_output st) ffb_in dt)\<rparr>)"
  using assms by (simp add: plugin_process_def Let_def)

lemma process_inside_same:
  assumes "states m a = Some st"
  shows "plugin_process m (Some a) ffb_in wheel_speed wheel_angle dt (Some (Inside a f)) =
    Some (0, m\<lparr>states := (states m)(a \<mapsto>
      (member_update f (filter_output (cutoff_freq st) (previous_output st) ffb_in dt)
         (st\<lparr>previous_output := filter_output (cutoff_freq st) (previous_output st) ffb_in dt\<rparr>))
      \<lparr>frame_count := frame_count st + 1\<rparr>)\<rparr>)"
  using assms by (cases f) (simp_all add: plugin_process_def Let_def)

lemma process_inside_other:
  assumes "states m a = Some st" "states m b = Some sb" "b \<noteq> a"
  shows "plugin_process m (Some a) ffb_in wheel_speed wheel_angle dt (Some (Inside b f)) =
    Some (0, m\<lparr>states := (states m)
      (b \<mapsto> member_update f (filter_output (cutoff_freq st) (previous_output st) ffb_in dt) sb,
       a \<mapsto> st\<lparr>previous_output := filter_output (cutoff_freq st) (previous_output st) ffb_in dt,
               frame_count := frame_count st + 1\<rparr>)\<rparr>)"
  using assms by (cases f) (auto simp: plugin_process_def Let_def fun_upd_twist)

lemma plugin_process_cases:
  assumes "plugin_process m state_ptr ffb_in wheel_speed wheel_angle dt ffb_out = Some (r, m')"
  obtains
    (null) "state_ptr = None \<or> ffb_out = None" "r = - 1" "m' = m"
  | (outside) a st out old where "state_ptr = Some a" "ffb_out = Some (Outside out)"
      "states m a = Some st" "slots m out = Some old" "r = 0"
  | (same) a st f where "state_ptr = Some a" "ffb_out = Some (Inside a f)"
      "states m a = Some st" "r = 0"
  | (other) a st b sb f where "state_ptr = Some a" "ffb_out = Some (Inside b f)"
      "states m a = Some st" "states m b = Some sb" "b \<noteq> a" "r = 0"
proof (cases "state_ptr = None \<or> ffb_out = None")
  case True
  with assms have "r = - 1" "m' = m" by (auto simp: plugin_process_def split: option.splits)
  with True show ?thesis by (rule null)
next
  case False
  then obtain a p where p: "state_ptr = Some a" "ffb_out = Some p" by auto
  with assms obtain st where st: "states m a = Some st"
    by (auto simp: plugin_process_def split: option.splits)
  from assms have r: "r = 0"
    by (auto simp: plugin_process_def p st Let_def split: option.splits)
  show ?thesis
  proof (cases p)
    case (Outside out)
    with assms p st obtain old where "slots m out = Some old"
      by (auto simp: plugin_process_def Let_def split: option.splits)
    with p st r Outside show ?thesis by (intro outside) simp_all
  next
    case (Inside b f)
    show ?thesis
    proof (cases "b = a")
      case True
      with p st r Inside show ?thesis by (intro same) simp_all
    next
      case False
      with assms p st Inside obtain sb where "states m b = Some sb"
        by (auto simp: plugin_process_def Let_def split: option.splits if_splits)
      with p st r Inside False show ?thesis by (intro other) simp_all
    qed
  qed
qed


lemma plugin_process_result:
  assumes "plugin_process m state_ptr ffb_in wheel_speed wheel_angle dt ffb_out = Some (r, m')"
  shows "(r \<noteq> 0 \<longrightarrow> m' = m) \<and>
    dom (states m') = dom (states m) \<and> dom (slots m') = dom (slots m) \<and>
    (\<forall>b st. states m b = Some st \<longrightarrow>
       (\<exists>st'. states m' b = Some st' \<and>
          frame_count st' =
            (if r = 0 \<and> state_ptr = Some b then frame_count st + 1 else frame_count st) \<and>
          (ffb_out \<noteq> Some (Inside b At_cutoff_freq) \<longrightarrow> cutoff_freq st' = cutoff_freq st) \<and>
          (ffb_out \<noteq> Some (Inside b At_sample_rate) \<longrightarrow> sample_rate st' = sample_rate st) \<and>
          (clear_of_config ffb_out \<longrightarrow>
             (\<exists>y n. st' = st\<lparr>previous_output := y, frame_count := n\<rparr>)) \<and>
          (state_ok st \<longrightarrow> state_ok st')))"
  using assms
proof (cases rule: plugin_process_cases)
  case null
  then show ?thesis by (simp add: state_self_update)
next
  case (outside a st0 out old)
  define y where "y = filter_output (cutoff_freq st0) (previous_output st0) ffb_in dt"
  have y: "is_fp binary32 y" unfolding y_def by (rule is_fp_filter_output)
  from assms have m': "m' = m\<lparr>states := (states m)(a \<mapsto>
      st0\<lparr>previous_output := y, frame_count := frame_count st0 + 1\<rparr>),
      slots := (slots m)(out \<mapsto> y)\<rparr>"
    unfolding outside(1,2) process_outside [OF outside(3,4)] y_def by simp
  have d: "dom (states m') = dom (states m)" "dom (slots m') = dom (slots m)"
    using outside(3,4) by (auto simp: m')
  have "\<exists>st'. states m' b = Some st' \<and>
          frame_count st' =
            (if r = 0 \<and> state_ptr = Some b then frame_count st + 1 else frame_count st) \<and>
          (ffb_out \<noteq> Some (Inside b At_cutoff_freq) \<longrightarrow> cutoff_freq st' = cutoff_freq st) \<and>
          (ffb_out \<noteq> Some (Inside b At_sample_rate) \<longrightarrow> sample_rate st' = sample_rate st) \<and>
          (clear_of_config ffb_out \<longrightarrow>
             (\<exists>y n. st' = st\<lparr>previous_output := y, frame_count := n\<rparr>)) \<and>
          (state_ok st \<longrightarrow> state_ok st')"
    if b: "states m b = Some st" for b st
  proof (cases "b = a")
    case True
    with b outside(3) have "st = st0" by simp
    then show ?thesis using True outside(1,5) y by (auto simp: m' state_ok_def)
  next
    case False
    then show ?thesis using b outside(1) by (simp add: m' state_self_update)
  qed
  with d outside(5) show ?thesis by simp
next
  case (same a st0 f)
  define y where "y = filter_output (cutoff_freq st0) (previous_output st0) ffb_in dt"
  have y: "is_fp binary32 y" unfolding y_def by (rule is_fp_filter_output)
  from assms have m': "m' = m\<lparr>states := (states m)(a \<mapsto>
      (member_update f y (st0\<lparr>previous_output := y\<rparr>))\<lparr>frame_count := frame_count st0 + 1\<rparr>)\<rparr>"
    unfolding same(1,2) process_inside_same [OF same(3)] y_def by simp
  have d: "dom (states m') = dom (states m)" "dom (slots m') = dom (slots m)"
    using same(3) by (auto simp: m')
  have "\<exists>st'. states m' b = Some st' \<and>
          frame_count st' =
            (if r = 0 \<and> state_ptr = Some b then frame_count st + 1 else frame_count st) \<and>
          (ffb_out \<noteq> Some (Inside b At_cutoff_freq) \<longrightarrow> cutoff_freq st' = cutoff_freq st) \<and>
          (ffb_out \<noteq> Some (Inside b At_sample_rate) \<longrightarrow> sample_rate st' = sample_rate st) \<and>
          (clear_of_config ffb_out \<longrightarrow>
             (\<exists>y n. st' = st\<lparr>previous_output := y, frame_count := n\<rparr>)) \<and>
          (state_ok st \<longrightarrow> state_ok st')"
    if b: "states m b = Some st" for b st
  proof (cases "b = a")
    case True
    with b same(3) have "st = st0" by simp
    then show ?thesis using True same(1,2,4) y by (cases f) (auto simp: m' state_ok_def)
  next
    case False
    then show ?thesis using b same(1,2) by (simp add: m' state_self_update)
  qed
  with d same(4) show ?thesis by simp
next
  case (other a st0 c sc f)
  define y where "y = filter_output (cutoff_freq st0) (previous_output st0) ffb_in dt"
  have y: "is_fp binary32 y" unfolding y_def by (rule is_fp_filter_output)
  from assms have m': "m' = m\<lparr>states := (states m)
      (c \<mapsto> member_update f y sc,
       a \<mapsto> st0\<lparr>previous_output := y, frame_count := frame_count st0 + 1\<rparr>)\<rparr>"
    unfolding other(1,2) process_inside_other [OF other(3,4,5)] y_def by simp
  have d: "dom (states m') = dom (states m)" "dom (slots m') = dom (slots m)"
    using other(3,4) by (auto simp: m')
  have "\<exists>st'. states m' b = Some st' \<and>
          frame_count st' =
            (if r = 0 \<and> state_ptr = Some b then frame_count st + 1 else frame_count st) \<and>
          (ffb_out \<noteq> Some (Inside b At_cutoff_freq) \<longrightarrow> cutoff_freq st' = cutoff_freq st) \<and>
          (ffb_out \<noteq> Some (Inside b At_sample_rate) \<longrightarrow> sample_rate st' = sample_rate st) \<and>
          (clear_of_config ffb_out \<longrightarrow>
             (\<exists>y n. st' = st\<lparr>previous_output := y, frame_count := n\<rparr>)) \<and>
          (state_ok st \<longrightarrow> state_ok st')"
    if b: "states m b = Some st" for b st
  proof (cases "b = a")
    case True
    with b other(3) have "st = st0" by simp
    then show ?thesis using True other(1,2,5,6) y by (auto simp: m' state_ok_def)
  next
    case False
    note ba = this
    show ?thesis
    proof (cases "b = c")
      case True
      with b other(4) have "st = sc" by simp
      then show ?thesis using True ba other(1,2,5) y
        by (cases f) (auto simp: m' state_ok_def state_output_update)
    next
      case False
      then show ?thesis using ba b other(1,2) by (simp add: m' state_self_update)
    qed
  qed
  with d other(6) show ?thesis by simp
qed

lemma process_call_step:
  assumes "call_ok m c"
  shows "\<exists>m'. process_call m c = Some (status_of c, m')"
proof (cases "arg_state c = None \<or> arg_ffb_out c = None")
  case True
  then show ?thesis
    by (auto simp: process_call_def plugin_process_def status_of_def split: option.splits)
next
  case False
  then obtain a p where p: "arg_state c = Some a" "arg_ffb_out c = Some p" by auto
  with assms obtain st where st: "states m a = Some st" "load_float m p \<noteq> None"
    by (auto simp: call_ok_def)
  show ?thesis
  proof (cases p)
    case (Outside out)
    with st obtain old where "slots m out = Some old" by auto
    from process_outside [OF st(1) this] show ?thesis
      by (simp add: process_call_def p Outside status_of_def)
  next
    case (Inside b f)
    with st obtain sb where sb: "states m b = Some sb" by auto
    show ?thesis
    proof (cases "b = a")
      case True
      from process_inside_same [OF st(1)] show ?thesis
        by (simp add: process_call_def p Inside True status_of_def)
    next
      case False
      from process_inside_other [OF st(1) sb False] show ?thesis
        by (simp add: process_call_def p Inside status_of_def)
    qed
  qed
qed

lemma plugin_process_live:
  assumes "states m a = Some st" "load_float m dst \<noteq> None"
  shows "\<exists>m' st'.
    plugin_process m (Some a) ffb_in wheel_speed wheel_angle dt (Some dst) = Some (0, m') \<and>
    load_float m' dst = Some (filter_output (cutoff_freq st) (previous_output st) ffb_in dt) \<and>
    states m' a = Some st' \<and>
    previous_output st' = filter_output (cutoff_freq st) (previous_output st) ffb_in dt \<and>
    frame_count st' = frame_count st + 1"
proof (cases dst)
  case (Outside out)
  with assms show ?thesis by (auto simp: plugin_process_def Let_def)
next
  case (Inside b f)
  with assms show ?thesis by (cases f) (auto simp: plugin_process_def Let_def)
qed

lemma successes_on_Cons:
  "successes_on a (c # cs) (r # rs) =
     (if arg_state c = Some a \<and> r = 0 then 1 else 0) + successes_on a cs rs"
  by (simp add: successes_on_def)

lemma successes_on_Nil: "successes_on a [] [] = 0"
  by (simp add: successes_on_def)

text \<open>
  A run of calls on usable pointers returns, with the statuses that the null checks decide.
  It counts the successes on an instance in its frame counter, and it keeps a member
  \<open>cutoff_freq\<close> or \<open>sample_rate\<close> at which no output pointer of the run points.
\<close>

lemma process_calls_run:
  assumes "\<forall>c\<in>set cs. call_ok m c" "states m a = Some st"
  shows "\<exists>m' st'. process_calls m cs = Some (map status_of cs, m') \<and>
    states m' a = Some st' \<and>
    frame_count st' = frame_count st + of_nat (successes_on a cs (map status_of cs)) \<and>
    ((\<forall>c\<in>set cs. arg_ffb_out c \<noteq> Some (Inside a At_cutoff_freq)) \<longrightarrow>
       cutoff_freq st' = cutoff_freq st) \<and>
    ((\<forall>c\<in>set cs. arg_ffb_out c \<noteq> Some (Inside a At_sample_rate)) \<longrightarrow>
       sample_rate st' = sample_rate st)"
  using assms
proof (induction cs arbitrary: m st)
  case Nil
  then show ?case by (simp add: successes_on_Nil)
next
  case (Cons c cs)
  from Cons.prems have ok: "call_ok m c" by simp
  from process_call_step [OF ok]
  obtain m1 where m1: "process_call m c = Some (status_of c, m1)" by blast
  then have run: "plugin_process m (arg_state c) (arg_ffb_in c) (arg_wheel_speed c)
      (arg_wheel_angle c) (arg_dt c) (arg_ffb_out c) = Some (status_of c, m1)"
    by (simp only: process_call_def)
  from plugin_process_result [OF run]
  have d: "dom (states m1) = dom (states m)" "dom (slots m1) = dom (slots m)"
    and st1: "\<exists>st1. states m1 a = Some st1 \<and>
          frame_count st1 =
            (if status_of c = 0 \<and> arg_state c = Some a then frame_count st + 1 else frame_count st) \<and>
          (arg_ffb_out c \<noteq> Some (Inside a At_cutoff_freq) \<longrightarrow> cutoff_freq st1 = cutoff_freq st) \<and>
          (arg_ffb_out c \<noteq> Some (Inside a At_sample_rate) \<longrightarrow> sample_rate st1 = sample_rate st)"
    using Cons.prems(2) by blast+
  from st1 obtain st1 where s1: "states m1 a = Some st1"
    "frame_count st1 =
       (if status_of c = 0 \<and> arg_state c = Some a then frame_count st + 1 else frame_count st)"
    "arg_ffb_out c \<noteq> Some (Inside a At_cutoff_freq) \<longrightarrow> cutoff_freq st1 = cutoff_freq st"
    "arg_ffb_out c \<noteq> Some (Inside a At_sample_rate) \<longrightarrow> sample_rate st1 = sample_rate st"
    by blast
  have oks: "\<forall>c\<in>set cs. call_ok m1 c"
    using Cons.prems(1) call_ok_dom [OF d] by simp
  from Cons.IH [OF oks s1(1)]
  obtain m' st' where r: "process_calls m1 cs = Some (map status_of cs, m')"
    "states m' a = Some st'"
    "frame_count st' = frame_count st1 + of_nat (successes_on a cs (map status_of cs))"
    "(\<forall>c\<in>set cs. arg_ffb_out c \<noteq> Some (Inside a At_cutoff_freq)) \<longrightarrow>
       cutoff_freq st' = cutoff_freq st1"
    "(\<forall>c\<in>set cs. arg_ffb_out c \<noteq> Some (Inside a At_sample_rate)) \<longrightarrow>
       sample_rate st' = sample_rate st1"
    by blast
  have "process_calls m (c # cs) = Some (map status_of (c # cs), m')"
    by (simp add: m1 r(1))
  moreover have "frame_count st' =
      frame_count st + of_nat (successes_on a (c # cs) (map status_of (c # cs)))"
    by (simp add: r(3) s1(2) successes_on_Cons)
  moreover have "(\<forall>c\<in>set (c # cs). arg_ffb_out c \<noteq> Some (Inside a At_cutoff_freq)) \<longrightarrow>
       cutoff_freq st' = cutoff_freq st"
    using r(4) s1(3) by simp
  moreover have "(\<forall>c\<in>set (c # cs). arg_ffb_out c \<noteq> Some (Inside a At_sample_rate)) \<longrightarrow>
       sample_rate st' = sample_rate st"
    using r(5) s1(4) by simp
  ultimately show ?case using r(2) by blast
qed




section \<open>Evaluating the example\<close>

lemma round_even_near:
  assumes "\<bar>x - of_int n\<bar> < 1 / 2"
  shows "round_even x = n"
proof -
  have *: "x = of_int n + (x - of_int n)" by simp
  show ?thesis
  proof (cases "0 \<le> x - of_int n")
    case True
    with assms have "round_even (of_int n + (x - of_int n)) = n" by (intro round_even_absorb) simp_all
    then show ?thesis by simp
  next
    case False
    then have neg: "x < of_int n" by simp
    have fl: "\<lfloor>x\<rfloor> = n - 1" using assms neg by (intro floor_unique) (simp_all add: abs_if)
    have "1 / 2 < x - of_int (n - 1)" using assms neg by (simp add: abs_if)
    then show ?thesis using neg by (simp add: round_even_def Let_def fl)
  qed
qed

lemma fround_near:
  assumes "2 powi e \<le> x" "x < 2 powi (e + 1)" "emin f \<le> e" "e < emax f" "0 < prec f"
    and "\<bar>x / 2 powi (e - (int (prec f) - 1)) - of_int n\<bar> < 1 / 2"
  shows "fround f s x = Fin s (of_int n * 2 powi (e - (int (prec f) - 1)))"
proof -
  have il: "ilog2 x = e" using assms(1,2) by (rule ilog2_unique)
  have q: "qexp f x = e - (int (prec f) - 1)" using assms(3) by (simp add: qexp_def il max_def)
  have x0: "0 < x" using assms(1) p2_pos [of e] by (rule less_le_trans [rotated])
  have r: "round_mag f x = of_int n * 2 powi (e - (int (prec f) - 1))"
    unfolding round_mag_def q using round_even_near [OF assms(6)] by simp
  have "round_mag f x \<le> 2 powi (max (ilog2 x) (emin f) + 1)" using assms(5) x0 by (rule round_mag_le_p2)
  also have "\<dots> = 2 powi (e + 1)" using assms(3) by (simp add: il max_def)
  also have "\<dots> < 2 powi (emax f + 1)" using assms(4) by (intro p2_strict) simp
  finally have "fround f s x = Fin s (round_mag f x)" by (rule fround_fin)
  then show ?thesis by (simp only: r)
qed

text \<open>\<^verbatim>\<open>M_PI\<close> is the double that the literal \<^verbatim>\<open>3.14159265358979323846\<close> of \<^verbatim>\<open>math.h\<close> denotes.\<close>

lemma M_PI_literal:
  "fround binary64 False (314159265358979323846 / 100000000000000000000) = M_PI"
  using fround_near [where f = binary64 and e = 1 and n = 7074237752028440 and s = False
      and x = "314159265358979323846 / 100000000000000000000"]
  by (simp add: binary64_def M_PI_def)

text \<open>The time constant at cutoff 50, and the example tick.\<close>

lemma rc_50_value: "filter_rc (f_lit 50) = Fin False (6835653 / 2147483648)"
proof -
  have 1: "fround binary64 False (22106992975088875 / 70368744177664) =
      Fin False (5526748243772219 / 17592186044416)"
    using fround_near [where f = binary64 and e = 8 and n = 5526748243772219 and s = False
        and x = "22106992975088875 / 70368744177664"]
    by (simp add: binary64_def)
  have 2: "fround binary64 False (17592186044416 / 5526748243772219) =
      Fin False (7339726258205003 / 2305843009213693952)"
    using fround_near [where f = binary64 and e = "- 9" and n = 7339726258205003 and s = False
        and x = "17592186044416 / 5526748243772219"]
    by (simp add: binary64_def)
  have 3: "fround binary32 False (7339726258205003 / 2305843009213693952) =
      Fin False (6835653 / 2147483648)"
    using fround_near [where f = binary32 and e = "- 9" and n = 13671306 and s = False
        and x = "7339726258205003 / 2305843009213693952"]
    by (simp add: binary32_def)
  show ?thesis
    unfolding filter_rc_def two_pi by (simp add: 1 2 3)
qed

lemma rep32_dt: "representable binary32 (1 / 1024)"
  using rep32_p2 [of "- 10"] by simp

lemma sum_50_value:
  "fadd binary32 (Fin False (6835653 / 2147483648)) (Fin False (1 / 1024)) =
     Fin False (8932805 / 2147483648)"
proof -
  have "representable binary32 (8932805 / 2147483648)"
    by (rule representableI [where e = "- 8" and k = 8932805]) (simp_all add: binary32_def)
  from fround_repr [OF this, of False] show ?thesis by (simp add: sval_def)
qed

lemma alpha_50_repr: "representable binary32 (1969391 / 8388608)"
  by (rule representableI [where e = "- 3" and k = 15755128]) (simp_all add: binary32_def)

lemma alpha_50_value: "filter_alpha (f_lit 50) (f_lit (1 / 1024)) = Fin False (1969391 / 8388608)"
proof -
  have "fround binary32 False (2097152 / 8932805) = Fin False (1969391 / 8388608)"
    using fround_near [where f = binary32 and e = "- 3" and n = 15755128 and s = False
        and x = "2097152 / 8932805"]
    by (simp add: binary32_def)
  then show ?thesis
    unfolding filter_alpha_def Let_def rc_50_value sum_50_value by simp
qed

lemma output_50_value:
  "filter_output (f_lit 50) (f_lit 0) (f_lit 1) (f_lit (1 / 1024)) = Fin False (1969391 / 8388608)"
proof -
  have "representable binary32 (6419217 / 8388608)"
    by (rule representableI [where e = "- 1" and k = 12838434]) (simp_all add: binary32_def)
  from fround_repr [OF this, of False]
  have 1: "fsub binary32 (Fin False 1) (Fin False (1969391 / 8388608)) = Fin False (6419217 / 8388608)"
    by (simp add: fsub_def sval_def)
  have 2: "fmul binary32 (Fin False (1969391 / 8388608)) (Fin False 1) = Fin False (1969391 / 8388608)"
    using fround_repr [OF alpha_50_repr, of False] by simp
  show ?thesis
    unfolding filter_output_def Let_def alpha_50_value 1 2
    by (simp add: fround_0 sval_def fround_repr [OF alpha_50_repr])
qed

text \<open>A tie goes to the even neighbour.\<close>

lemma round_even_half:
  assumes "x = of_int n + 1 / 2" "even n"
  shows "round_even x = n"
proof -
  have "\<lfloor>x\<rfloor> = n" unfolding assms(1) by (intro floor_unique) simp_all
  then show ?thesis using assms by (simp add: round_even_def Let_def)
qed

lemma fround_tie:
  assumes "2 powi e \<le> x" "x < 2 powi (e + 1)" "emin f \<le> e" "e < emax f" "0 < prec f"
    and "x / 2 powi (e - (int (prec f) - 1)) = of_int n + 1 / 2" "even n"
  shows "fround f s x = Fin s (of_int n * 2 powi (e - (int (prec f) - 1)))"
proof -
  have il: "ilog2 x = e" using assms(1,2) by (rule ilog2_unique)
  have q: "qexp f x = e - (int (prec f) - 1)" using assms(3) by (simp add: qexp_def il max_def)
  have x0: "0 < x" using assms(1) p2_pos [of e] by (rule less_le_trans [rotated])
  have r: "round_mag f x = of_int n * 2 powi (e - (int (prec f) - 1))"
    unfolding round_mag_def q using round_even_half [OF assms(6,7)] by simp
  have "round_mag f x \<le> 2 powi (max (ilog2 x) (emin f) + 1)" using assms(5) x0 by (rule round_mag_le_p2)
  also have "\<dots> = 2 powi (e + 1)" using assms(3) by (simp add: il max_def)
  also have "\<dots> < 2 powi (emax f + 1)" using assms(4) by (intro p2_strict) simp
  finally have "fround f s x = Fin s (round_mag f x)" by (rule fround_fin)
  then show ?thesis by (simp only: r)
qed

text \<open>
  The second tick of the example starts from the first output: the product
  \<open>(1 - alpha) * previous_output\<close> is rounded, and the sum is a tie, which goes to the even
  neighbour.
\<close>

lemma output_50_second:
  "filter_output (f_lit 50) (Fin False (1969391 / 8388608)) (f_lit 1) (f_lit (1 / 1024)) =
     Fin False (6952857 / 16777216)"
proof -
  have "representable binary32 (6419217 / 8388608)"
    by (rule representableI [where e = "- 1" and k = 12838434]) (simp_all add: binary32_def)
  from fround_repr [OF this, of False]
  have 1: "fsub binary32 (Fin False 1) (Fin False (1969391 / 8388608)) = Fin False (6419217 / 8388608)"
    by (simp add: fsub_def sval_def)
  have 2: "fmul binary32 (Fin False (1969391 / 8388608)) (Fin False 1) = Fin False (1969391 / 8388608)"
    using fround_repr [OF alpha_50_repr, of False] by simp
  have "fround binary32 False (12641948186847 / 70368744177664) = Fin False (12056301 / 67108864)"
    using fround_near [where f = binary32 and e = "- 3" and n = 12056301 and s = False
        and x = "12641948186847 / 70368744177664"]
    by (simp add: binary32_def)
  then have 3: "fmul binary32 (Fin False (6419217 / 8388608)) (Fin False (1969391 / 8388608)) =
      Fin False (12056301 / 67108864)"
    by simp
  have "fround binary32 False (27811429 / 67108864) = Fin False (6952857 / 16777216)"
    using fround_tie [where f = binary32 and e = "- 2" and n = 13905714 and s = False
        and x = "27811429 / 67108864"]
    by (simp add: binary32_def)
  then have 4: "fadd binary32 (Fin False (1969391 / 8388608)) (Fin False (12056301 / 67108864)) =
      Fin False (6952857 / 16777216)"
    by (simp add: sval_def)
  show ?thesis
    unfolding filter_output_def Let_def alpha_50_value 1 2 3 by (rule 4)
qed

section \<open>Properties of the ABI operations\<close>

text \<open>
  The floats of an instance stay values of their type: \<^verbatim>\<open>create\<close> writes three of them,
  and what \<^verbatim>\<open>process\<close> stores, wherever the output pointer points, is the result of a
  float addition.
\<close>

lemma rep32_1000: "representable binary32 1000"
  by (rule representableI [where e = 9 and k = "1000 * 2 ^ 14"]) (simp_all add: binary32_def)

lemma create_state_ok:
  "\<exists>st. states (snd (plugin_create m (Some a) config config_len)) a = Some st \<and> state_ok st"
  by (simp add: plugin_create_def state_ok_def rep32_50 rep32_1000 representable_0)

lemma process_state_ok:
  assumes "plugin_process m state_ptr ffb_in wheel_speed wheel_angle dt ffb_out = Some (r, m')"
    and "states m b = Some st" "state_ok st"
  shows "\<exists>st'. states m' b = Some st' \<and> state_ok st'"
  using plugin_process_result [OF assms(1)] assms(2,3) by blast

text \<open>
  C1.  Called with the handle of a live instance \<open>st\<close> and a pointer to a live float,
  \<^verbatim>\<open>process\<close> returns 0 and leaves a memory in which that float and the instance's
  \<open>previous_output\<close> both hold \<open>y = alpha * ffb_in + (1 - alpha) * p\<close>, with
  \<open>rc = 1 / (2 * M_PI * cutoff_freq)\<close> and \<open>alpha = dt / (rc + dt)\<close>, each operation being
  that of its C type: the product and the quotient of \<open>rc\<close> in double, \<open>rc\<close> converted to
  float, the rest in float.  The frame counter is one more, and when the float is an output
  slot of the host nothing else changes.  A new instance starts with \<open>previous_output = 0\<close>.
\<close>

theorem process_output_formula:
  assumes "states m a = Some st" "load_float m dst \<noteq> None"
  shows
    "(let rc = fcvt binary32
            (fdiv binary64 (f_lit 1)
               (fmul binary64 (fmul binary64 (f_lit 2) M_PI) (cutoff_freq st)));
          alpha = fdiv binary32 dt (fadd binary32 rc dt);
          y = fadd binary32 (fmul binary32 alpha ffb_in)
                (fmul binary32 (fsub binary32 (f_lit 1) alpha) (previous_output st))
      in \<exists>m' st'.
           plugin_process m (Some a) ffb_in wheel_speed wheel_angle dt (Some dst) = Some (0, m') \<and>
           load_float m' dst = Some y \<and> states m' a = Some st' \<and>
           previous_output st' = y \<and> frame_count st' = frame_count st + 1 \<and>
           (\<forall>out. dst = Outside out \<longrightarrow>
              m' = m\<lparr>states := (states m)(a \<mapsto>
                          st\<lparr>previous_output := y, frame_count := frame_count st + 1\<rparr>),
                       slots := (slots m)(out \<mapsto> y)\<rparr>)) \<and>
     (\<exists>st0. states (snd (plugin_create m0 (Some a0) config config_len)) a0 = Some st0 \<and>
            previous_output st0 = f_lit 0)"
proof -
  define y where "y = filter_output (cutoff_freq st) (previous_output st) ffb_in dt"
  from plugin_process_live [OF assms]
  obtain m' st' where run:
    "plugin_process m (Some a) ffb_in wheel_speed wheel_angle dt (Some dst) = Some (0, m')"
    "load_float m' dst = Some y" "states m' a = Some st'"
    "previous_output st' = y" "frame_count st' = frame_count st + 1"
    unfolding y_def by blast
  have "m' = m\<lparr>states := (states m)(a \<mapsto>
                  st\<lparr>previous_output := y, frame_count := frame_count st + 1\<rparr>),
                slots := (slots m)(out \<mapsto> y)\<rparr>" if "dst = Outside out" for out
  proof -
    from assms(2) that obtain old where "slots m out = Some old" by auto
    from process_outside [OF assms(1) this] run(1) show ?thesis
      unfolding that y_def by simp
  qed
  with run have "\<exists>m' st'.
      plugin_process m (Some a) ffb_in wheel_speed wheel_angle dt (Some dst) = Some (0, m') \<and>
      load_float m' dst = Some y \<and> states m' a = Some st' \<and>
      previous_output st' = y \<and> frame_count st' = frame_count st + 1 \<and>
      (\<forall>out. dst = Outside out \<longrightarrow>
         m' = m\<lparr>states := (states m)(a \<mapsto>
                     st\<lparr>previous_output := y, frame_count := frame_count st + 1\<rparr>),
                  slots := (slots m)(out \<mapsto> y)\<rparr>)"
    by blast
  then show ?thesis
    by (simp add: y_def plugin_create_def filter_output_def filter_alpha_def filter_rc_def Let_def)
qed

lemma inst0_state:
  "states inst0 0 = Some \<lparr>cutoff_freq = f_lit 50, sample_rate = f_lit 1000,
      previous_output = f_lit 0, frame_count = 0\<rparr>"
  "slots inst0 0 = Some (f_lit 0)"
  by (simp_all add: inst0_def host0_def plugin_create_def)

lemma tick0_run:
  "plugin_process inst0 (Some 0) (f_lit 1) (f_lit 0) (f_lit 0) (f_lit (1 / 1024))
     (Some (Outside 0)) = Some (0, ran0)"
  unfolding process_outside [OF inst0_state]
  by (simp add: output_50_value ran0_def inst0_def host0_def plugin_create_def)

lemma ran0_state:
  "states ran0 0 = Some \<lparr>cutoff_freq = f_lit 50, sample_rate = f_lit 1000,
      previous_output = Fin False (1969391 / 8388608), frame_count = 1\<rparr>"
  "slots ran0 0 = Some (Fin False (1969391 / 8388608))"
  by (simp_all add: ran0_def)

text \<open>
  Two ticks of the example, each with input 1 and \<open>dt = 2\<^sup>-\<^sup>1\<^sup>0\<close>.  The first output of the
  new instance is \<open>1969391 / 2\<^sup>2\<^sup>3\<close>, about 0.2348.  The second tick starts from that
  output, so that the term \<open>(1 - alpha) * p\<close> counts: its output is \<open>6952857 / 2\<^sup>2\<^sup>4\<close>,
  about 0.4144.
\<close>

theorem process_output_formula_witness:
  "plugin_process inst0 (Some 0) (f_lit 1) (f_lit 0) (f_lit 0) (f_lit (1 / 1024))
     (Some (Outside 0)) = Some (0, ran0) \<and>
   plugin_process ran0 (Some 0) (f_lit 1) (f_lit 0) (f_lit 0) (f_lit (1 / 1024))
     (Some (Outside 0)) =
     Some (0, \<lparr>states = [0 \<mapsto> \<lparr>cutoff_freq = f_lit 50, sample_rate = f_lit 1000,
                   previous_output = Fin False (6952857 / 16777216), frame_count = 2\<rparr>],
               slots = [0 \<mapsto> Fin False (6952857 / 16777216)]\<rparr>)"
proof -
  have y1: "fadd binary32
      (fmul binary32
         (fdiv binary32 (f_lit (1 / 1024))
            (fadd binary32
               (fcvt binary32
                  (fdiv binary64 (f_lit 1) (fmul binary64 (fmul binary64 (f_lit 2) M_PI) (f_lit 50))))
               (f_lit (1 / 1024))))
         (f_lit 1))
      (fmul binary32
         (fsub binary32 (f_lit 1)
            (fdiv binary32 (f_lit (1 / 1024))
               (fadd binary32
                  (fcvt binary32
                     (fdiv binary64 (f_lit 1) (fmul binary64 (fmul binary64 (f_lit 2) M_PI) (f_lit 50))))
                  (f_lit (1 / 1024)))))
         (f_lit 0)) = Fin False (1969391 / 8388608)"
    using output_50_value
    by (simp only: filter_output_def filter_alpha_def filter_rc_def Let_def)
  have y2: "fadd binary32
      (fmul binary32
         (fdiv binary32 (f_lit (1 / 1024))
            (fadd binary32
               (fcvt binary32
                  (fdiv binary64 (f_lit 1) (fmul binary64 (fmul binary64 (f_lit 2) M_PI) (f_lit 50))))
               (f_lit (1 / 1024))))
         (f_lit 1))
      (fmul binary32
         (fsub binary32 (f_lit 1)
            (fdiv binary32 (f_lit (1 / 1024))
               (fadd binary32
                  (fcvt binary32
                     (fdiv binary64 (f_lit 1) (fmul binary64 (fmul binary64 (f_lit 2) M_PI) (f_lit 50))))
                  (f_lit (1 / 1024)))))
         (Fin False (1969391 / 8388608))) = Fin False (6952857 / 16777216)"
    using output_50_second
    by (simp only: filter_output_def filter_alpha_def filter_rc_def Let_def)
  have live: "load_float inst0 (Outside 0) \<noteq> None" "load_float ran0 (Outside 0) \<noteq> None"
    by (simp_all add: inst0_state ran0_state)
  from process_output_formula [OF inst0_state(1) live(1),
      of "f_lit (1 / 1024)" "f_lit 1" "f_lit 0" "f_lit 0"]
  have 1: "plugin_process inst0 (Some 0) (f_lit 1) (f_lit 0) (f_lit 0) (f_lit (1 / 1024))
     (Some (Outside 0)) = Some (0, ran0)"
    unfolding Let_def PluginState.simps y1
    by (auto simp: ran0_def inst0_def host0_def plugin_create_def)
  from process_output_formula [OF ran0_state(1) live(2),
      of "f_lit (1 / 1024)" "f_lit 1" "f_lit 0" "f_lit 0"]
  have 2: "plugin_process ran0 (Some 0) (f_lit 1) (f_lit 0) (f_lit 0) (f_lit (1 / 1024))
     (Some (Outside 0)) =
     Some (0, \<lparr>states = [0 \<mapsto> \<lparr>cutoff_freq = f_lit 50, sample_rate = f_lit 1000,
                   previous_output = Fin False (6952857 / 16777216), frame_count = 2\<rparr>],
               slots = [0 \<mapsto> Fin False (6952857 / 16777216)]\<rparr>)"
    unfolding Let_def PluginState.simps y2
    by (auto simp: ran0_def)
  from 1 2 show ?thesis by (rule conjI)
qed

text \<open>
  C2.  With a null instance handle or a null output pointer, \<^verbatim>\<open>process\<close> returns the
  negative status \<open>-1\<close> and the memory it was given: no float is written and no instance
  changes.  With the handle of a live instance and a pointer to a live float, an output
  slot of the host or any other, it returns 0 and that float holds the filter's output.
\<close>

theorem process_null_checks:
  "(state_ptr = None \<or> ffb_out = None \<longrightarrow>
      plugin_process m state_ptr ffb_in wheel_speed wheel_angle dt ffb_out = Some (- 1, m)) \<and>
   (states m a = Some st \<and> load_float m dst \<noteq> None \<longrightarrow>
      (\<exists>m'. plugin_process m (Some a) ffb_in wheel_speed wheel_angle dt (Some dst) = Some (0, m') \<and>
            load_float m' dst =
              Some (filter_output (cutoff_freq st) (previous_output st) ffb_in dt)))"
proof (intro conjI impI)
  assume "state_ptr = None \<or> ffb_out = None"
  then show "plugin_process m state_ptr ffb_in wheel_speed wheel_angle dt ffb_out = Some (- 1, m)"
    by (auto simp: plugin_process_def split: option.splits)
next
  assume "states m a = Some st \<and> load_float m dst \<noteq> None"
  then have "states m a = Some st" "load_float m dst \<noteq> None" by simp_all
  from plugin_process_live [OF this]
  show "\<exists>m'. plugin_process m (Some a) ffb_in wheel_speed wheel_angle dt (Some dst) = Some (0, m') \<and>
      load_float m' dst = Some (filter_output (cutoff_freq st) (previous_output st) ffb_in dt)"
    by blast
qed

theorem process_null_checks_witness:
  "plugin_process inst0 None (f_lit 1) (f_lit 0) (f_lit 0) (f_lit (1 / 1024)) (Some (Outside 0)) =
     Some (- 1, inst0) \<and>
   plugin_process inst0 (Some 0) (f_lit 1) (f_lit 0) (f_lit 0) (f_lit (1 / 1024)) None =
     Some (- 1, inst0) \<and>
   (\<exists>m'. plugin_process inst0 (Some 0) (f_lit 1) (f_lit 0) (f_lit 0) (f_lit (1 / 1024))
       (Some (Outside 0)) = Some (0, m') \<and>
     slots m' 0 = Some (Fin False (1969391 / 8388608)))"
  using
    process_null_checks [where state_ptr = None and ffb_out = "Some (Outside 0)" and m = inst0
      and ffb_in = "f_lit 1" and wheel_speed = "f_lit 0" and wheel_angle = "f_lit 0"
      and dt = "f_lit (1 / 1024)" and a = 0 and dst = "Outside 0"
      and st = "\<lparr>cutoff_freq = f_lit 50, sample_rate = f_lit 1000,
        previous_output = f_lit 0, frame_count = 0\<rparr>"]
    process_null_checks [where state_ptr = "Some 0" and ffb_out = None and m = inst0
      and ffb_in = "f_lit 1" and wheel_speed = "f_lit 0" and wheel_angle = "f_lit 0"
      and dt = "f_lit (1 / 1024)"]
    inst0_state output_50_value
  by simp

text \<open>
  C6.  \<^verbatim>\<open>create\<close> always returns: the null handle exactly when the allocation fails,
  and then memory is untouched; otherwise, whatever the configuration pointer, bytes and
  length are, the handle of a new instance that holds the defaults, every other instance
  and every output slot being left alone.
\<close>

theorem create_null_iff_alloc_fails:
  "(fst (plugin_create m alloc config config_len) = None \<longleftrightarrow> alloc = None) \<and>
   (case alloc of
      None \<Rightarrow> snd (plugin_create m alloc config config_len) = m
    | Some a \<Rightarrow>
        fst (plugin_create m alloc config config_len) = Some a \<and>
        states (snd (plugin_create m alloc config config_len)) a =
          Some \<lparr>cutoff_freq = f_lit 50, sample_rate = f_lit 1000,
                previous_output = f_lit 0, frame_count = 0\<rparr> \<and>
        slots (snd (plugin_create m alloc config config_len)) = slots m \<and>
        (\<forall>b. b = a \<or> states (snd (plugin_create m alloc config config_len)) b = states m b))"
  by (simp add: plugin_create_def split: option.split)

text \<open>
  C7.  \<^verbatim>\<open>create\<close> returns the same handle and memory whatever the configuration buffer
  and length are, and two successful creations, from any memories, at any addresses and
  with any configurations, make instances of the same state: cutoff 50, sample rate 1000,
  previous output 0, frame count 0.
\<close>

theorem create_ignores_config:
  "plugin_create m alloc config config_len = plugin_create m alloc config' config_len' \<and>
   states (snd (plugin_create m (Some a) config config_len)) a =
     states (snd (plugin_create m' (Some a') config' config_len')) a' \<and>
   states (snd (plugin_create m (Some a) config config_len)) a =
     Some \<lparr>cutoff_freq = f_lit 50, sample_rate = f_lit 1000,
           previous_output = f_lit 0, frame_count = 0\<rparr>"
  by (simp add: plugin_create_def)

text \<open>
  C8.  \<^verbatim>\<open>get_info\<close> takes no instance and reads no memory: it is one fixed record, the
  same at every call, and its \<open>abi_version\<close> is the constant \<^verbatim>\<open>PLUGIN_ABI_VERSION\<close>,
  which is 1.
\<close>

theorem get_info_constant:
  "plugin_get_info =
     \<lparr>name = ''Sample DSP Filter'', version = ''1.0.0'', author = ''Racing Wheel Suite'',
      description = ''Simple low-pass filter for force feedback'', abi_version = 1\<rparr> \<and>
   abi_version plugin_get_info = PLUGIN_ABI_VERSION \<and> PLUGIN_ABI_VERSION = 1"
  by (simp add: plugin_get_info_def PLUGIN_ABI_VERSION_def)

text \<open>
  C9.  Destroying the null handle is a no-operation: the call is defined, it frees
  nothing and it leaves the whole memory as it was.
\<close>

theorem destroy_null_noop:
  "plugin_destroy m None = Some m"
  by (simp add: plugin_destroy_def)

section \<open>The frame counter\<close>


lemma tick0_ok: "call_ok inst0 tick0" "call_ok inst0 (tick0\<lparr>arg_ffb_out := None\<rparr>)"
  by (simp_all add: call_ok_def tick0_def inst0_def host0_def plugin_create_def)



section \<open>The smoothing factor\<close>

lemma finite_positive:
  assumes "is_fp binary32 c" "is_finite c" "fp_lt (f_lit 0) c"
  shows "\<exists>m. c = Fin False m \<and> representable binary32 m \<and> 0 < m"
proof -
  from assms(2) obtain s m where c: "c = Fin s m" by (cases c) simp_all
  with assms(1) have m: "representable binary32 m" by simp
  then have "0 \<le> m" by (simp add: representable_def)
  with assms(3) have "\<not> s" "0 < m"
    by (auto simp: c sval_def split: if_splits)
  with c m show ?thesis by simp
qed

text \<open>The largest float below 2 is \<open>2 - 2\<^sup>-\<^sup>2\<^sup>3\<close>, and what lies below the midpoint rounds to it at most.\<close>

lemma rep32_under_two: "representable binary32 (2 - 2 powi (- 23))"
  by (rule representableI [where e = 0 and k = "2 ^ 24 - 1"]) (simp_all add: binary32_def)

lemma rep32_below_two:
  assumes "representable binary32 r" "r < 2"
  shows "r \<le> 2 - 2 powi (- 23)"
proof (cases "1 \<le> r")
  case False
  then show ?thesis by simp
next
  case True
  have il: "ilog2 r = 0" using True assms(2) by (intro ilog2_unique) simp_all
  have q: "qexp binary32 r = - 23" by (simp add: qexp_def il binary32_def)
  define k where "k = \<lfloor>r / 2 powi (- 23)\<rfloor>"
  have k: "of_int k = r / 2 powi (- 23)" using assms(1) by (simp add: representable_def q k_def)
  have rk: "r = of_int k * 2 powi (- 23)" by (simp add: k)
  have "r / 2 powi (- 23) < 2 / 2 powi (- 23)"
    using assms(2) by (intro divide_strict_right_mono) simp_all
  then have "(of_int k :: rat) < of_int (2 ^ 24)" by (simp add: k)
  then have "k < 2 ^ 24" by (simp only: of_int_less_iff)
  then have "k \<le> 2 ^ 24 - 1" by simp
  then have "(of_int k :: rat) \<le> of_int (2 ^ 24 - 1)" by (simp only: of_int_le_iff)
  then have "of_int k * 2 powi (- 23) \<le> (of_int (2 ^ 24 - 1) :: rat) * 2 powi (- 23)"
    by (intro mult_right_mono) simp_all
  then show ?thesis unfolding rk [symmetric] by simp
qed

lemma round_mag_below_two:
  assumes "0 \<le> x" "x < 2 - 2 powi (- 24)"
  shows "round_mag binary32 x \<le> 2 - 2 powi (- 23)"
proof (cases "x \<le> 2 - 2 powi (- 23)")
  case True
  with prec32 rep32_under_two assms(1) show ?thesis by (intro round_mag_le)
next
  case False
  then have lo: "2 - 2 powi (- 23) < x" by simp
  have il: "ilog2 x = 0" using lo assms(2) by (intro ilog2_unique) simp_all
  have q: "qexp binary32 x = - 23" by (simp add: qexp_def il binary32_def)
  define e where "e = x / 2 powi (- 23) - of_int (2 ^ 24 - 1)"
  have split: "x / 2 powi (- 23) = of_int (2 ^ 24 - 1) + e" by (simp add: e_def)
  have e: "0 \<le> e" "e < 1 / 2" using lo assms(2) by (simp_all add: e_def)
  have "round_even (x / 2 powi (- 23)) = 2 ^ 24 - 1"
    unfolding split using e by (rule round_even_absorb)
  then show ?thesis by (simp add: round_mag_def q)
qed

text \<open>A float of the top binade absorbs an addend below 2.\<close>

lemma round_mag_absorb_top:
  assumes d: "representable binary32 d" "2 powi 127 \<le> d" and r: "0 \<le> r" "r \<le> 2"
  shows "round_mag binary32 (d + r) = d"
proof -
  have d128: "d < 2 powi 128" using d(1) by (rule rep32_less)
  have ild: "ilog2 d = 127" using d(2) d128 by (intro ilog2_unique) simp_all
  have qd: "qexp binary32 d = 104" by (simp add: qexp_def ild binary32_def)
  define k where "k = \<lfloor>d / 2 powi 104\<rfloor>"
  have k: "of_int k = d / 2 powi 104" using d(1) by (simp add: representable_def qd k_def)
  have dk: "d = of_int k * 2 powi 104" by (simp add: k)
  have "(of_int k :: rat) < of_int (2 ^ 24)" using d128 by (simp add: k pos_divide_less_eq)
  then have "k < 2 ^ 24" by (simp only: of_int_less_iff)
  then have "k \<le> 2 ^ 24 - 1" by simp
  then have "(of_int k :: rat) \<le> of_int (2 ^ 24 - 1)" by (simp only: of_int_le_iff)
  then have "d \<le> (2 ^ 24 - 1) * 2 powi 104" unfolding dk by (simp add: mult_right_mono)
  then have x128: "d + r < 2 powi 128" using r(2) by simp
  have ilx: "ilog2 (d + r) = 127" using d(2) r(1) x128 by (intro ilog2_unique) simp_all
  have qx: "qexp binary32 (d + r) = 104" by (simp add: qexp_def ilx binary32_def)
  have split: "(d + r) / 2 powi 104 = of_int k + r / 2 powi 104"
    unfolding k by (rule add_divide_distrib)
  have small: "0 \<le> r / 2 powi 104" "r / 2 powi 104 < 1 / 2" using r by simp_all
  have rk: "round_even ((d + r) / 2 powi 104) = k"
    unfolding split using small by (rule round_even_absorb)
  show ?thesis unfolding round_mag_def qx rk by (rule dk [symmetric])
qed

text \<open>
  The sum \<open>rc + dt\<close> for a time constant below 2 and a finite \<open>dt > 0\<close>: it is finite, at
  least \<open>dt\<close>, and less than \<open>2\<^sup>1\<^sup>5\<^sup>0\<close> times \<open>dt\<close>.
\<close>

lemma sum_bounds:
  assumes d: "representable binary32 d" "0 < d" and r: "representable binary32 r" "r < 2"
  shows "\<exists>u. fadd binary32 (Fin False r) (Fin False d) = Fin False u \<and> d \<le> u \<and> u < d * 2 powi 150"
proof -
  let ?x = "r + d"
  have r0: "0 \<le> r" using r(1) by (simp add: representable_def)
  have rR: "r \<le> 2 - 2 powi (- 23)" using r by (rule rep32_below_two)
  have x0: "0 < ?x" using d(2) r0 by simp
  have eq: "fadd binary32 (Fin False r) (Fin False d) = fround binary32 False ?x"
    using x0 by (simp add: Let_def sval_def)
  have lo: "d \<le> round_mag binary32 ?x"
    using prec32 d(1) by (rule round_mag_ge) (use r0 in simp)
  have d150: "2 \<le> d * 2 powi 150"
  proof -
    have "2 powi (- 149) * 2 powi 150 \<le> d * 2 powi 150"
      using rep32_least [OF d] by (intro mult_right_mono) simp_all
    then show ?thesis by (simp flip: p2_add)
  qed
  have hi: "round_mag binary32 ?x < d * 2 powi 150"
  proof (cases "?x < 2 - 2 powi (- 24)")
    case True
    have "round_mag binary32 ?x \<le> 2 - 2 powi (- 23)"
      using less_imp_le [OF x0] True by (rule round_mag_below_two)
    also have "\<dots> < 2" by simp
    finally show ?thesis using d150 by simp
  next
    case False
    then have d24: "2 powi (- 24) \<le> d" using rR by simp
    have "(2::rat) powi 0 \<le> ?x" using False by simp
    also have "?x < 2 powi (ilog2 ?x + 1)" using x0 by (rule ilog2_bounds)
    finally have "0 < ilog2 ?x + 1" by (rule p2_less_cancel)
    then have E: "max (ilog2 ?x) (emin binary32) = ilog2 ?x" by (simp add: binary32_def max_def)
    have "round_mag binary32 ?x \<le> 2 powi (max (ilog2 ?x) (emin binary32) + 1)"
      using prec32 x0 by (rule round_mag_le_p2)
    also have "\<dots> = 2 * 2 powi (ilog2 ?x)" unfolding E by (simp add: p2_add)
    also have "\<dots> \<le> 2 * ?x" using ilog2_bounds(1) [OF x0] by simp
    also have "\<dots> < 4 + 2 * d" using r(2) by simp
    also have "\<dots> \<le> d * 2 powi 150"
    proof -
      have "2 powi (- 24) * (2 powi 150 - 2) \<le> d * (2 powi 150 - 2)"
        using d24 by (intro mult_right_mono) simp_all
      then have "4 \<le> d * (2 powi 150 - 2)" by simp
      then show ?thesis by (simp add: right_diff_distrib)
    qed
    finally show ?thesis .
  qed
  have fin: "round_mag binary32 ?x < 2 powi (emax binary32 + 1)"
  proof (cases "2 powi 127 \<le> d")
    case True
    have "round_mag binary32 (d + r) = d" using d(1) True r0 less_imp_le [OF r(2)]
      by (rule round_mag_absorb_top)
    then show ?thesis using d(1) by (simp add: representable_def add.commute)
  next
    case False
    then have "?x \<le> 3 * 2 powi 126" using r(2) by simp
    with prec32 rep32_top have "round_mag binary32 ?x \<le> 3 * 2 powi 126"
      using x0 by (intro round_mag_le) simp_all
    then show ?thesis by (simp add: binary32_def)
  qed
  show ?thesis unfolding eq using lo hi fround_fin [OF fin] by simp
qed

text \<open>Above half of the smallest positive float a quotient rounds up to it at least.\<close>

lemma round_even_up:
  assumes "1 / 2 < t" "t < 1"
  shows "round_even t = 1"
proof -
  have "\<lfloor>t\<rfloor> = 0" using assms by (intro floor_unique) simp_all
  then show ?thesis using assms(1) by (simp add: round_even_def Let_def)
qed

lemma round_mag_above_half:
  assumes "2 powi (- 150) < x"
  shows "2 powi (- 149) \<le> round_mag binary32 x"
proof (cases "2 powi (- 149) \<le> x")
  case True
  with prec32 rep32_149 show ?thesis by (rule round_mag_ge)
next
  case False
  then have hi: "x < 2 powi (- 149)" by simp
  have x0: "0 < x" using p2_pos [of "- 150"] assms by (rule less_trans)
  have "(2::rat) powi (ilog2 x) < 2 powi (- 149)"
    using ilog2_bounds(1) [OF x0] hi by (rule le_less_trans)
  then have "ilog2 x < - 149" by (rule p2_less_cancel)
  then have q: "qexp binary32 x = - 149" by (simp add: qexp_def binary32_def max_def)
  have "2 powi (- 150) / 2 powi (- 149) < x / 2 powi (- 149)"
    using assms by (intro divide_strict_right_mono) simp_all
  then have t1: "1 / 2 < x / 2 powi (- 149)" by simp
  have "x / 2 powi (- 149) < 2 powi (- 149) / 2 powi (- 149)"
    using hi by (intro divide_strict_right_mono) simp_all
  then have t2: "x / 2 powi (- 149) < 1" by simp
  have "round_even (x / 2 powi (- 149)) = 1" using t1 t2 by (rule round_even_up)
  then show ?thesis unfolding round_mag_def q by simp
qed

lemma alpha_bounds:
  assumes rc: "filter_rc c = Fin False r" "representable binary32 r" "r < 2"
    and d: "representable binary32 d" "0 < d"
  shows "\<exists>a. filter_alpha c (Fin False d) = Fin False a \<and> 2 powi (- 149) \<le> a \<and> a \<le> 1"
proof -
  from sum_bounds [OF d rc(2,3)]
  obtain u where u: "fadd binary32 (Fin False r) (Fin False d) = Fin False u" "d \<le> u"
    "u < d * 2 powi 150" by auto
  have u0: "0 < u" using d(2) u(2) by simp
  have hi: "d / u \<le> 1" using u(2) u0 by simp
  have "d / (d * 2 powi 150) < d / u" using u(3) u0 d(2) by (intro divide_strict_left_mono) simp_all
  then have lo: "2 powi (- 150) < d / u" using d(2) by (simp add: power_int_minus_divide)
  have q0: "0 \<le> d / u" using d(2) u0 by simp
  have a1: "round_mag binary32 (d / u) \<le> 1" using prec32 rep32_one q0 hi by (rule round_mag_le)
  have a0: "2 powi (- 149) \<le> round_mag binary32 (d / u)" using lo by (rule round_mag_above_half)
  have "round_mag binary32 (d / u) < 2 powi (emax binary32 + 1)"
    using a1 by (simp add: binary32_def)
  then have "fround binary32 False (d / u) = Fin False (round_mag binary32 (d / u))"
    by (rule fround_fin)
  moreover have "filter_alpha c (Fin False d) = fround binary32 False (d / u)"
    unfolding filter_alpha_def Let_def rc(1) u(1) using u0 by simp
  ultimately show ?thesis using a0 a1 by simp
qed


text \<open>
  The time constant of a positive cutoff is a float: \<open>+0\<close> for the infinite cutoff, and
  for a finite one the rounded reciprocal, which may overflow.
\<close>

lemma filter_rc_infinite: "filter_rc (Infty False) = f_lit 0"
  unfolding filter_rc_def two_pi by (simp add: fround_0)

lemma filter_rc_cases:
  assumes "is_fp binary32 c" "fp_lt (f_lit 0) c"
  shows "filter_rc c = Infty False \<or> (\<exists>r. filter_rc c = Fin False r \<and> representable binary32 r)"
proof (cases c)
  case NaN
  with assms(2) show ?thesis by simp
next
  case (Infty s)
  with assms(2) have "c = Infty False" by simp
  then show ?thesis using representable_0 [of binary32] by (simp add: filter_rc_infinite)
next
  case (Fin s m)
  then have "is_finite c" by simp
  from finite_positive [OF assms(1) this assms(2)]
  obtain m where c: "c = Fin False m" and m: "representable binary32 m" "0 < m" by blast
  have "2 powi (- 149) \<le> m" using m by (rule rep32_least)
  from scaled_two_pi [OF m(1) this]
  obtain r1 where r1: "fmul binary64 (fmul binary64 (f_lit 2) M_PI) (Fin False m) = Fin False r1"
    "2 powi (- 147) \<le> r1" "r1 \<le> 2 powi 131" by auto
  from reciprocal_double [OF r1(2,3)]
  obtain r2 where r2: "fdiv binary64 (f_lit 1) (Fin False r1) = Fin False r2" "2 powi (- 131) \<le> r2"
    by auto
  have r20: "0 \<le> r2" by (rule order_trans [OF less_imp_le [OF p2_pos] r2(2)])
  have eq: "filter_rc c = fround binary32 False r2" unfolding filter_rc_def c r1 r2 by simp
  have "is_fp binary32 (fround binary32 False r2)" using prec32 r20 by (rule is_fp_fround)
  then show ?thesis unfolding eq using fround_cases [of binary32 False r2] by auto
qed

text \<open>
  With a time constant below 2 the smoothing factor of a finite \<open>dt > 0\<close> is a finite number
  above 0 and at most 1.
\<close>

lemma alpha_unit_of_rc:
  assumes "is_fp binary32 c" "fp_lt (f_lit 0) c"
    and "fp_lt (filter_rc c) (f_lit 2)"
    and "is_fp binary32 dt" "is_finite dt" "fp_lt (f_lit 0) dt"
  shows "is_finite (filter_alpha c dt) \<and>
    fp_lt (f_lit 0) (filter_alpha c dt) \<and>
    fp_le (filter_alpha c dt) (f_lit 1)"
proof -
  from filter_rc_cases [OF assms(1,2)] assms(3)
  obtain r where r: "filter_rc c = Fin False r" "representable binary32 r" "r < 2"
    by (auto simp: sval_def)
  from finite_positive [OF assms(4-6)]
  obtain d where d: "dt = Fin False d" "representable binary32 d" "0 < d" by blast
  from alpha_bounds [OF r d(2,3)]
  obtain a where a: "filter_alpha c (Fin False d) = Fin False a"
    "2 powi (- 149) \<le> a" "a \<le> 1" by blast
  have "0 < a" using a(2) p2_pos [of "- 149"] by (rule less_le_trans [rotated])
  then show ?thesis using a(3) by (auto simp: d(1) a(1) fp_le_def sval_def)
qed

text \<open>
  The least cutoff whose time constant is below 2 is the float \<open>2670177 / 2\<^sup>2\<^sup>5\<close>, about
  0.0796: from there on the reciprocal stays under the midpoint of 2 and the float before
  it, and up to the float before the cutoff, \<open>10680707 / 2\<^sup>2\<^sup>7\<close>, it is 2 at least.
\<close>

lemma rc_below_two:
  assumes m: "representable binary32 m" "2670177 / 33554432 \<le> m"
  shows "\<exists>r. filter_rc (Fin False m) = Fin False r \<and> r < 2"
proof -
  let ?t = "884279719003555 / 140737488355328 :: rat"
  let ?l = "67108867 / 134217728 :: rat"
  let ?h = "134217723 / 67108864 :: rat"
  have m0: "0 < m" using m(2) by simp
  have "?l \<le> ?t * (2670177 / 33554432)" by simp
  also have "\<dots> \<le> ?t * m" using m(2) by (intro mult_left_mono) simp_all
  finally have lo: "?l \<le> ?t * m" .
  have "?t * m \<le> 8 * 2 powi 128"
    using two_pi_bounds(2) rep32_less [OF m(1)] m0 by (intro mult_mono) simp_all
  also have "\<dots> = 2 powi 131" by simp
  finally have hi: "?t * m \<le> 2 powi 131" .
  have rl: "representable binary64 ?l"
    by (rule representableI [where e = "- 1" and k = "67108867 * 2 ^ 26"])
      (simp_all add: binary64_def)
  have rh: "representable binary64 (2 powi 131)" by (rule rep64_p2) simp_all
  have "\<exists>r. fround binary64 False (?t * m) = Fin False r \<and> ?l \<le> r \<and> r \<le> 2 powi 131"
    using prec64 rl rh lo hi by (rule fround_between)
  then obtain r1 where r1: "fmul binary64 (fmul binary64 (f_lit 2) M_PI) (Fin False m) = Fin False r1"
    "?l \<le> r1" "r1 \<le> 2 powi 131"
    by (auto simp: two_pi)
  have r10: "0 < r1" using r1(2) by simp
  have lo2: "2 powi (- 131) \<le> 1 / r1"
    using r1(3) r10 by (simp add: power_int_minus_divide frac_le)
  have "1 / r1 \<le> 1 / ?l" using r1(2) by (intro divide_left_mono) simp_all
  also have "\<dots> \<le> ?h" by simp
  finally have hi2: "1 / r1 \<le> ?h" .
  have rl2: "representable binary64 (2 powi (- 131))" by (rule rep64_p2) simp_all
  have rh2: "representable binary64 ?h"
    by (rule representableI [where e = 0 and k = "134217723 * 2 ^ 26"])
      (simp_all add: binary64_def)
  have "\<exists>u. fround binary64 False (1 / r1) = Fin False u \<and> 2 powi (- 131) \<le> u \<and> u \<le> ?h"
    using prec64 rl2 rh2 lo2 hi2 by (rule fround_between)
  then obtain r2 where r2: "fdiv binary64 (f_lit 1) (Fin False r1) = Fin False r2"
    "2 powi (- 131) \<le> r2" "r2 \<le> ?h"
    using r10 by auto
  have r20: "0 \<le> r2" by (rule order_trans [OF less_imp_le [OF p2_pos] r2(2)])
  have "r2 < 2 - 2 powi (- 24)" using r2(3) by simp
  with r20 have r3: "round_mag binary32 r2 \<le> 2 - 2 powi (- 23)" by (rule round_mag_below_two)
  then have "round_mag binary32 r2 < 2 powi (emax binary32 + 1)" by (simp add: binary32_def)
  then have "fround binary32 False r2 = Fin False (round_mag binary32 r2)" by (rule fround_fin)
  then have "filter_rc (Fin False m) = Fin False (round_mag binary32 r2)"
    unfolding filter_rc_def r1 r2 by simp
  moreover have "round_mag binary32 r2 < 2" using r3 by simp
  ultimately show ?thesis by blast
qed

lemma rc_two_or_more:
  assumes m: "representable binary32 m" "0 < m" "m \<le> 10680707 / 134217728"
  shows "filter_rc (Fin False m) = Infty False \<or>
    (\<exists>r. filter_rc (Fin False m) = Fin False r \<and> 2 \<le> r)"
proof -
  let ?t = "884279719003555 / 140737488355328 :: rat"
  have "2 powi (- 149) \<le> m" using m(1,2) by (rule rep32_least)
  from scaled_two_pi [OF m(1) this]
  obtain r1 where r1: "fmul binary64 (fmul binary64 (f_lit 2) M_PI) (Fin False m) = Fin False r1"
    "2 powi (- 147) \<le> r1" by auto
  have eq1: "fround binary64 False (?t * m) = Fin False r1" using r1(1) by (simp add: two_pi)
  have "?t * m \<le> ?t * (10680707 / 134217728)" using m(3) by (intro mult_left_mono) simp_all
  also have "\<dots> \<le> 2 powi (- 1)" by simp
  finally have hi: "?t * m \<le> 2 powi (- 1)" .
  have t0: "0 \<le> ?t * m" using m(2) by simp
  have rh: "representable binary64 (2 powi (- 1))" by (rule rep64_p2) simp_all
  have "round_mag binary64 (?t * m) \<le> 2 powi (- 1)" using prec64 rh t0 hi by (rule round_mag_le)
  moreover have "r1 = round_mag binary64 (?t * m)"
    using eq1 fround_cases [of binary64 False "?t * m"] by auto
  ultimately have r1h: "r1 \<le> 2 powi (- 1)" by simp
  have r10: "0 < r1" using r1(2) p2_pos [of "- 147"] by (rule less_le_trans [rotated])
  from reciprocal_double [OF r1(2) r1h]
  obtain r2 where r2: "fdiv binary64 (f_lit 1) (Fin False r1) = Fin False r2" "2 powi 1 \<le> r2"
    by auto
  have h: "representable binary32 (2 powi 1)" by (rule rep32_p2) simp_all
  have "fround binary32 False r2 = Infty False \<or>
    (\<exists>r. fround binary32 False r2 = Fin False r \<and> 2 powi 1 \<le> r)"
    using prec32 h r2(2) by (rule fround_above)
  then show ?thesis unfolding filter_rc_def r1 r2 by simp
qed

lemma rep32_before_threshold:
  assumes "representable binary32 m" "m < 2670177 / 33554432"
  shows "m \<le> 10680707 / 134217728"
proof (cases "2 powi (- 4) \<le> m")
  case False
  then show ?thesis by simp
next
  case True
  have il: "ilog2 m = - 4" using True assms(2) by (intro ilog2_unique) simp_all
  have q: "qexp binary32 m = - 27" by (simp add: qexp_def il binary32_def)
  define k where "k = \<lfloor>m / 2 powi (- 27)\<rfloor>"
  have k: "of_int k = m / 2 powi (- 27)" using assms(1) by (simp add: representable_def q k_def)
  have mk: "m = of_int k * 2 powi (- 27)" by (simp add: k)
  have "m / 2 powi (- 27) < (2670177 / 33554432) / 2 powi (- 27)"
    using assms(2) by (intro divide_strict_right_mono) simp_all
  then have "(of_int k :: rat) < of_int 10680708" by (simp add: k)
  then have "k < 10680708" by (simp only: of_int_less_iff)
  then have "k \<le> 10680707" by simp
  then have "(of_int k :: rat) \<le> of_int 10680707" by (simp only: of_int_le_iff)
  then have "of_int k * 2 powi (- 27) \<le> (of_int 10680707 :: rat) * 2 powi (- 27)"
    by (intro mult_right_mono) simp_all
  then show ?thesis unfolding mk [symmetric] by simp
qed

lemma rc_below_two_iff:
  assumes "is_fp binary32 c" "fp_lt (f_lit 0) c"
  shows "fp_lt (filter_rc c) (f_lit 2) \<longleftrightarrow> fp_le (f_lit (2670177 / 33554432)) c"
proof (cases c)
  case NaN
  with assms(2) show ?thesis by simp
next
  case (Infty s)
  with assms(2) have "c = Infty False" by simp
  then show ?thesis by (simp add: filter_rc_infinite fp_le_def sval_def)
next
  case (Fin s x)
  then have "is_finite c" by simp
  from finite_positive [OF assms(1) this assms(2)]
  obtain m where c: "c = Fin False m" and m: "representable binary32 m" "0 < m" by blast
  show ?thesis
  proof (cases "2670177 / 33554432 \<le> m")
    case True
    from rc_below_two [OF m(1) True] True show ?thesis
      by (auto simp: c fp_le_def sval_def)
  next
    case False
    then have "m < 2670177 / 33554432" by simp
    with m(1) have "m \<le> 10680707 / 134217728" by (rule rep32_before_threshold)
    from rc_two_or_more [OF m this] False show ?thesis
      by (auto simp: c fp_le_def sval_def)
  qed
qed

text \<open>
  C4, as the code has it.  For a finite \<open>dt > 0\<close> and a \<open>cutoff_freq\<close> of at least
  \<open>2670177 / 2\<^sup>2\<^sup>5\<close>, which is about 0.0796, \<open>alpha\<close> is a finite number with
  \<open>0 < alpha \<le> 1\<close>.  The infinite cutoff is one of these, and so is the 50 that
  \<^verbatim>\<open>create\<close> sets.
\<close>

theorem alpha_in_unit_interval:
  assumes "is_fp binary32 (cutoff_freq st)"
    and "fp_le (f_lit (2670177 / 33554432)) (cutoff_freq st)"
    and "is_fp binary32 dt" "is_finite dt" "fp_lt (f_lit 0) dt"
  shows "is_finite (filter_alpha (cutoff_freq st) dt) \<and>
    fp_lt (f_lit 0) (filter_alpha (cutoff_freq st) dt) \<and>
    fp_le (filter_alpha (cutoff_freq st) dt) (f_lit 1)"
proof -
  have pos: "fp_lt (f_lit 0) (cutoff_freq st)"
    using assms(2) by (cases "cutoff_freq st") (auto simp: fp_le_def sval_def split: if_splits)
  from rc_below_two_iff [OF assms(1) pos] assms(2)
  have "fp_lt (filter_rc (cutoff_freq st)) (f_lit 2)" by simp
  with assms(1) pos show ?thesis using assms(3-5) by (rule alpha_unit_of_rc)
qed

text \<open>
  The example, cutoff 50 and \<open>dt = 2\<^sup>-\<^sup>1\<^sup>0\<close>, and the infinite cutoff with the smallest
  positive \<open>dt\<close>, \<open>2\<^sup>-\<^sup>1\<^sup>4\<^sup>9\<close>.
\<close>

theorem alpha_in_unit_interval_witness:
  "(is_finite (filter_alpha (f_lit 50) (f_lit (1 / 1024))) \<and>
    fp_lt (f_lit 0) (filter_alpha (f_lit 50) (f_lit (1 / 1024))) \<and>
    fp_le (filter_alpha (f_lit 50) (f_lit (1 / 1024))) (f_lit 1)) \<and>
   (is_finite (filter_alpha (Infty False) (f_lit (2 powi (- 149)))) \<and>
    fp_lt (f_lit 0) (filter_alpha (Infty False) (f_lit (2 powi (- 149)))) \<and>
    fp_le (filter_alpha (Infty False) (f_lit (2 powi (- 149)))) (f_lit 1))"
proof -
  have 1: "is_finite (filter_alpha (f_lit 50) (f_lit (1 / 1024))) \<and>
    fp_lt (f_lit 0) (filter_alpha (f_lit 50) (f_lit (1 / 1024))) \<and>
    fp_le (filter_alpha (f_lit 50) (f_lit (1 / 1024))) (f_lit 1)"
    using alpha_in_unit_interval [where dt = "f_lit (1 / 1024)" and
        st = "\<lparr>cutoff_freq = f_lit 50, sample_rate = f_lit 1000,
          previous_output = f_lit 0, frame_count = 0\<rparr>"]
      rep32_50 rep32_dt
    by (simp add: fp_le_def sval_def)
  have 2: "is_finite (filter_alpha (Infty False) (f_lit (2 powi (- 149)))) \<and>
    fp_lt (f_lit 0) (filter_alpha (Infty False) (f_lit (2 powi (- 149)))) \<and>
    fp_le (filter_alpha (Infty False) (f_lit (2 powi (- 149)))) (f_lit 1)"
    using alpha_in_unit_interval [where dt = "f_lit (2 powi (- 149))" and
        st = "\<lparr>cutoff_freq = Infty False, sample_rate = f_lit 1000,
          previous_output = f_lit 0, frame_count = 0\<rparr>"]
      rep32_149
    by (simp add: fp_le_def sval_def)
  from 1 2 show ?thesis by (rule conjI)
qed

text \<open>
  An infinite \<open>dt\<close> is positive, and with the cutoff of a new instance it makes \<open>alpha\<close>
  the quotient of two infinities, a NaN: neither above 0 nor at most 1.
\<close>

theorem alpha_infinite_dt_counterexample:
  "fp_lt (f_lit 0) (f_lit 50) \<and> fp_lt (f_lit 0) (Infty False) \<and>
   filter_alpha (f_lit 50) (Infty False) = NaN \<and>
   \<not> fp_lt (f_lit 0) (filter_alpha (f_lit 50) (Infty False)) \<and>
   \<not> fp_le (filter_alpha (f_lit 50) (Infty False)) (f_lit 1)"
proof -
  have "filter_alpha (f_lit 50) (Infty False) = NaN"
    unfolding filter_alpha_def Let_def rc_50_value by simp
  then show ?thesis by (simp add: sval_def fp_le_def)
qed

text \<open>
  The bound on the cutoff is the one that the smallest positive \<open>dt\<close> sets: with a
  positive cutoff below it the time constant is 2 or more, or has overflowed, and the
  quotient for \<open>dt = 2\<^sup>-\<^sup>1\<^sup>4\<^sup>9\<close> is at most half of the smallest positive float and rounds
  to 0.
\<close>

lemma round_even_down:
  assumes "0 \<le> t" "t \<le> 1 / 2"
  shows "round_even t = 0"
proof -
  have "\<lfloor>t\<rfloor> = 0" using assms by (intro floor_unique) simp_all
  then show ?thesis using assms(2) by (simp add: round_even_def Let_def)
qed

lemma round_mag_to_zero:
  assumes "0 < x" "x \<le> 2 powi (- 150)"
  shows "round_mag binary32 x = 0"
proof -
  have "(2::rat) powi (ilog2 x) < 2 powi (- 149)"
    using ilog2_bounds(1) [OF assms(1)] assms(2) p2_strict [of "- 150" "- 149"] by simp
  then have "ilog2 x < - 149" by (rule p2_less_cancel)
  then have q: "qexp binary32 x = - 149" by (simp add: qexp_def binary32_def max_def)
  have "x / 2 powi (- 149) \<le> 2 powi (- 150) / 2 powi (- 149)"
    using assms(2) by (intro divide_right_mono) simp_all
  then have le: "x / 2 powi (- 149) \<le> 1 / 2" by simp
  have ge: "0 \<le> x / 2 powi (- 149)" using assms(1) by simp
  have "round_even (x / 2 powi (- 149)) = 0" using ge le by (rule round_even_down)
  then show ?thesis unfolding round_mag_def q by simp
qed

lemma alpha_zero_beyond:
  assumes "is_fp binary32 c" "fp_lt (f_lit 0) c" "\<not> fp_lt (filter_rc c) (f_lit 2)"
  shows "filter_alpha c (f_lit (2 powi (- 149))) = f_lit 0"
proof -
  from filter_rc_cases [OF assms(1,2)] show ?thesis
  proof
    assume "filter_rc c = Infty False"
    then show ?thesis by (simp add: filter_alpha_def Let_def)
  next
    assume "\<exists>r. filter_rc c = Fin False r \<and> representable binary32 r"
    then obtain r where r: "filter_rc c = Fin False r" by blast
    with assms(3) have r2: "2 powi 1 \<le> r" by (simp add: sval_def)
    let ?x = "r + 2 powi (- 149)"
    have x: "2 powi 1 \<le> ?x" using r2 by simp
    have x0: "0 < ?x" using x by simp
    have sum: "fadd binary32 (Fin False r) (f_lit (2 powi (- 149))) = fround binary32 False ?x"
      using x0 by (simp add: sval_def Let_def)
    have h: "representable binary32 (2 powi 1)" by (rule rep32_p2) simp_all
    have "fround binary32 False ?x = Infty False \<or>
        (\<exists>u. fround binary32 False ?x = Fin False u \<and> 2 powi 1 \<le> u)"
      using prec32 h x by (rule fround_above)
    then show ?thesis
    proof
      assume "fround binary32 False ?x = Infty False"
      then show ?thesis unfolding filter_alpha_def Let_def r sum by simp
    next
      assume "\<exists>u. fround binary32 False ?x = Fin False u \<and> 2 powi 1 \<le> u"
      then obtain u where u: "fround binary32 False ?x = Fin False u" "2 powi 1 \<le> u" by blast
      have u0: "0 < u" using u(2) by simp
      have "2 powi (- 149) / u \<le> 2 powi (- 149) / 2 powi 1"
        using u(2) by (intro divide_left_mono) simp_all
      also have "\<dots> = 2 powi (- 150)" by simp
      finally have small: "2 powi (- 149) / u \<le> 2 powi (- 150)" .
      have "0 < 2 powi (- 149) / u" using u0 by simp
      then have "round_mag binary32 (2 powi (- 149) / u) = 0" using small by (rule round_mag_to_zero)
      then have "fround binary32 False (2 powi (- 149) / u) = Fin False 0"
        by (simp add: fround_def not_le)
      then show ?thesis
        unfolding filter_alpha_def Let_def r sum u(1) using u0 by simp
    qed
  qed
qed


lemma alpha_underflow:
  assumes "is_fp binary32 c" "fp_lt (f_lit 0) c" "fp_lt c (f_lit (2670177 / 33554432))"
  shows "filter_alpha c (f_lit (2 powi (- 149))) = f_lit 0 \<and>
    \<not> fp_lt (f_lit 0) (filter_alpha c (f_lit (2 powi (- 149))))"
proof -
  have "\<not> fp_le (f_lit (2670177 / 33554432)) c"
    using assms(3) by (cases c) (auto simp: fp_le_def sval_def split: if_splits)
  with rc_below_two_iff [OF assms(1,2)] have "\<not> fp_lt (filter_rc c) (f_lit 2)" by simp
  with assms(1,2) have "filter_alpha c (f_lit (2 powi (- 149))) = f_lit 0"
    by (rule alpha_zero_beyond)
  then show ?thesis by (simp add: sval_def)
qed

section \<open>A tick of no duration\<close>

text \<open>
  C5, as the code has it.  With \<open>dt\<close> a zero, a finite positive cutoff and a finite input,
  both divisors are positive (\<open>2 * M_PI * cutoff_freq\<close> and \<open>rc + dt\<close>), \<open>alpha\<close> is a
  zero, the zero that \<open>dt\<close> is, and the output, which is also the new \<open>previous_output\<close>,
  is the previous output: the same value, but for \<open>+0\<close> in place of \<open>-0\<close>, and equal to
  it in the sense of \<^verbatim>\<open>==\<close> unless it is a NaN.
\<close>

theorem zero_dt_holds_output:
  assumes "states m a = Some st" "load_float m dst \<noteq> None"
    and "is_fp binary32 (cutoff_freq st)" "is_finite (cutoff_freq st)"
    and "fp_lt (f_lit 0) (cutoff_freq st)"
    and "is_fp binary32 (previous_output st)"
    and "is_finite ffb_in" "fp_eq dt (f_lit 0)"
  shows "\<exists>y m' st'.
    plugin_process m (Some a) ffb_in wheel_speed wheel_angle dt (Some dst) = Some (0, m') \<and>
    load_float m' dst = Some y \<and> states m' a = Some st' \<and> previous_output st' = y \<and>
    (y = previous_output st \<or> y = Fin False 0 \<and> previous_output st = Fin True 0) \<and>
    (previous_output st = NaN \<or> fp_eq y (previous_output st)) \<and>
    fp_eq (filter_alpha (cutoff_freq st) dt) (f_lit 0) \<and>
    filter_alpha (cutoff_freq st) dt = dt \<and>
    fp_lt (f_lit 0) (fmul binary64 (fmul binary64 (f_lit 2) M_PI) (cutoff_freq st)) \<and>
    fp_lt (f_lit 0) (fadd binary32 (filter_rc (cutoff_freq st)) dt)"
proof -
  from finite_positive [OF assms(3-5)]
  obtain c where c: "cutoff_freq st = Fin False c" "representable binary32 c" "0 < c" by blast
  from fp_eq_zero [OF assms(8)] obtain s where dt: "dt = Fin s 0" by blast
  from assms(7) obtain t x where x: "ffb_in = Fin t x" by (cases ffb_in) simp_all
  note rc = filter_rc_positive [OF c(2,3)]
  have alpha: "filter_alpha (cutoff_freq st) dt = Fin s 0"
    unfolding filter_alpha_def Let_def c(1) dt using rc by (rule alpha_zero_dt)
  from scaled_two_pi [OF c(2) rep32_least [OF c(2,3)]]
  obtain r1 where r1: "fmul binary64 (fmul binary64 (f_lit 2) M_PI) (Fin False c) = Fin False r1"
    "2 powi (- 149 + 2) \<le> r1" by auto
  have "0 < r1" using r1(2) p2_pos [of "- 149 + 2"] by (rule less_le_trans [rotated])
  then have div1: "fp_lt (f_lit 0) (fmul binary64 (fmul binary64 (f_lit 2) M_PI) (cutoff_freq st))"
    unfolding c(1) r1(1) by (simp add: sval_def)
  have "fp_le (f_lit 0) dt" by (simp add: dt fp_le_def sval_def)
  with rc have "fadd binary32 (filter_rc (Fin False c)) dt = Infty False \<or>
      (\<exists>u. fadd binary32 (filter_rc (Fin False c)) dt = Fin False u \<and> 2 powi (- 131) \<le> u)"
    by (rule sum_positive)
  then have pos: "fp_lt (f_lit 0) (fadd binary32 (filter_rc (cutoff_freq st)) dt)"
  proof
    assume "fadd binary32 (filter_rc (Fin False c)) dt = Infty False"
    then show ?thesis by (simp add: c(1))
  next
    assume "\<exists>u. fadd binary32 (filter_rc (Fin False c)) dt = Fin False u \<and> 2 powi (- 131) \<le> u"
    then obtain u where u: "fadd binary32 (filter_rc (Fin False c)) dt = Fin False u"
      "2 powi (- 131) \<le> u" by blast
    have "0 < u" using u(2) p2_pos [of "- 131"] by (rule less_le_trans [rotated])
    then show ?thesis by (simp add: c(1) u(1) sval_def)
  qed
  define y where "y = filter_output (cutoff_freq st) (previous_output st) ffb_in dt"
  have y: "(y = previous_output st \<or> y = Fin False 0 \<and> previous_output st = Fin True 0) \<and>
      (previous_output st = NaN \<or> fp_eq y (previous_output st))"
    unfolding y_def filter_output_def Let_def alpha x by (rule output_hold [OF assms(6)])
  from plugin_process_live [OF assms(1,2)]
  obtain m' st' where run:
    "plugin_process m (Some a) ffb_in wheel_speed wheel_angle dt (Some dst) = Some (0, m')"
    "load_float m' dst = Some y" "states m' a = Some st'" "previous_output st' = y"
    unfolding y_def by blast
  have a0: "fp_eq (filter_alpha (cutoff_freq st) dt) (f_lit 0)" by (simp add: alpha sval_def)
  have a1: "filter_alpha (cutoff_freq st) dt = dt" using alpha dt by simp
  from run y a0 a1 div1 pos show ?thesis by blast
qed

lemma rep32_held: "representable binary32 (3 / 4)"
  by (rule representableI [where e = "- 1" and k = "3 * 2 ^ 22"]) (simp_all add: binary32_def)

text \<open>The instance that holds 3/4 keeps it through a tick of no duration with input 1.\<close>

theorem zero_dt_holds_output_witness:
  "\<exists>m' st'.
     plugin_process held0 (Some 0) (f_lit 1) (f_lit 0) (f_lit 0) (f_lit 0) (Some (Outside 0)) =
       Some (0, m') \<and>
     slots m' 0 = Some (f_lit (3 / 4)) \<and> states m' 0 = Some st' \<and>
     previous_output st' = f_lit (3 / 4) \<and>
     fp_eq (filter_alpha (f_lit 50) (f_lit 0)) (f_lit 0) \<and>
     fp_lt (f_lit 0) (fadd binary32 (filter_rc (f_lit 50)) (f_lit 0))"
  using zero_dt_holds_output [where m = held0 and a = 0 and dst = "Outside 0"
      and ffb_in = "f_lit 1" and dt = "f_lit 0" and wheel_speed = "f_lit 0"
      and wheel_angle = "f_lit 0"
      and st = "\<lparr>cutoff_freq = f_lit 50, sample_rate = f_lit 1000,
        previous_output = f_lit (3 / 4), frame_count = 7\<rparr>"]
    rep32_50 rep32_held
  by (auto simp: held0_def sval_def)

text \<open>
  An infinite input at \<open>dt = 0\<close>: \<open>alpha * ffb_in\<close> is zero times infinity, a NaN, and so are
  the output and the new \<open>previous_output\<close> of the example instance, whose previous output
  was 0.
\<close>

theorem zero_dt_infinite_input_counterexample:
  "fp_lt (f_lit 0) (f_lit 50) \<and> fp_eq (f_lit 0) (f_lit 0) \<and>
   plugin_process inst0 (Some 0) (Infty False) (f_lit 0) (f_lit 0) (f_lit 0) (Some (Outside 0)) =
     Some (0, inst0\<lparr>states := (states inst0)(0 \<mapsto>
                 \<lparr>cutoff_freq = f_lit 50, sample_rate = f_lit 1000,
                  previous_output = NaN, frame_count = 1\<rparr>),
               slots := (slots inst0)(0 \<mapsto> NaN)\<rparr>) \<and>
   \<not> fp_eq NaN (f_lit 0) \<and> NaN \<noteq> f_lit 0"
proof -
  have "filter_rc (f_lit 50) = Infty False \<or>
      (\<exists>r. filter_rc (f_lit 50) = Fin False r \<and> 2 powi (- 131) \<le> r)"
    using filter_rc_50 by blast
  then have "fdiv binary32 (Fin False 0) (fadd binary32 (filter_rc (f_lit 50)) (Fin False 0)) =
      Fin False 0"
    by (rule alpha_zero_dt)
  then have "filter_output (f_lit 50) (f_lit 0) (Infty False) (f_lit 0) = NaN"
    by (simp add: filter_output_def filter_alpha_def Let_def)
  then show ?thesis
    unfolding process_outside [OF inst0_state] by (simp add: sval_def)
qed

text \<open>
  An infinite cutoff is positive too, and there the time constant is 0: \<open>rc + dt\<close> is
  zero and \<open>alpha\<close> is zero divided by zero.
\<close>

lemma zero_dt_infinite_cutoff:
  "filter_rc (Infty False) = f_lit 0 \<and> fadd binary32 (filter_rc (Infty False)) (f_lit 0) = f_lit 0 \<and>
   filter_alpha (Infty False) (f_lit 0) = NaN"
proof -
  have "filter_rc (Infty False) = f_lit 0" by (rule filter_rc_infinite)
  then show ?thesis by (simp add: filter_alpha_def Let_def sval_def)
qed

section \<open>What a call leaves alone\<close>

lemma rc_plus_dt_positive:
  assumes "fp_le (f_lit 0) dt"
  shows "fp_lt (f_lit 0) (fadd binary32 (filter_rc (f_lit 50)) dt) \<and>
    \<not> fp_eq (fadd binary32 (filter_rc (f_lit 50)) dt) (f_lit 0)"
proof -
  have "filter_rc (f_lit 50) = Infty False \<or>
      (\<exists>r. filter_rc (f_lit 50) = Fin False r \<and> 2 powi (- 131) \<le> r)"
    using filter_rc_50 by blast
  then have "fadd binary32 (filter_rc (f_lit 50)) dt = Infty False \<or>
      (\<exists>u. fadd binary32 (filter_rc (f_lit 50)) dt = Fin False u \<and> 2 powi (- 131) \<le> u)"
    using assms by (rule sum_positive)
  then show ?thesis
  proof
    assume "fadd binary32 (filter_rc (f_lit 50)) dt = Infty False"
    then show ?thesis by simp
  next
    assume "\<exists>u. fadd binary32 (filter_rc (f_lit 50)) dt = Fin False u \<and> 2 powi (- 131) \<le> u"
    then obtain u where u: "fadd binary32 (filter_rc (f_lit 50)) dt = Fin False u"
      "2 powi (- 131) \<le> u" by blast
    have "0 < u" using u(2) p2_pos [of "- 131"] by (rule less_le_trans [rotated])
    then show ?thesis by (simp add: u(1) sval_def)
  qed
qed

text \<open>
  C10, as the code has it.  A call of \<^verbatim>\<open>process\<close> that fails leaves the memory as it
  was.  One that succeeds writes the output through its output pointer, whatever that
  designates: it keeps the \<open>cutoff_freq\<close> and the \<open>sample_rate\<close> of every instance but
  the member that the output pointer designates, if it designates one, and with an output
  pointer clear of these members, such as a pointer to a float of the host, it changes no
  instance but in \<open>previous_output\<close> and \<open>frame_count\<close>.  So after any run of calls on
  usable pointers, none of them with its output pointer at the \<open>cutoff_freq\<close> of an
  instance made by \<^verbatim>\<open>create\<close>, that instance still has cutoff 50, which is positive, and
  for every \<open>dt \<ge> 0\<close> the divisor \<open>rc + dt\<close> is positive, hence not zero; likewise its
  sample rate is still 1000 when no output pointer was at its \<open>sample_rate\<close>.
\<close>

theorem process_preserves_cutoff:
  "(plugin_process m state_ptr ffb_in wheel_speed wheel_angle dt ffb_out = Some (r, m') \<longrightarrow>
      (r \<noteq> 0 \<longrightarrow> m' = m) \<and>
      (\<forall>b st. states m b = Some st \<longrightarrow>
         (\<exists>st'. states m' b = Some st' \<and>
            (ffb_out \<noteq> Some (Inside b At_cutoff_freq) \<longrightarrow> cutoff_freq st' = cutoff_freq st) \<and>
            (ffb_out \<noteq> Some (Inside b At_sample_rate) \<longrightarrow> sample_rate st' = sample_rate st) \<and>
            (clear_of_config ffb_out \<longrightarrow>
               (\<exists>y n. st' = st\<lparr>previous_output := y, frame_count := n\<rparr>))))) \<and>
   ((\<forall>c\<in>set cs. call_ok (snd (plugin_create m0 (Some a) config config_len)) c) \<longrightarrow>
      (\<exists>m'' st'.
         process_calls (snd (plugin_create m0 (Some a) config config_len)) cs =
           Some (map status_of cs, m'') \<and>
         states m'' a = Some st' \<and>
         ((\<forall>c\<in>set cs. arg_ffb_out c \<noteq> Some (Inside a At_sample_rate)) \<longrightarrow>
            sample_rate st' = f_lit 1000) \<and>
         ((\<forall>c\<in>set cs. arg_ffb_out c \<noteq> Some (Inside a At_cutoff_freq)) \<longrightarrow>
            cutoff_freq st' = f_lit 50 \<and>
            fp_lt (f_lit 0) (cutoff_freq st') \<and>
            (\<forall>dt'. fp_le (f_lit 0) dt' \<longrightarrow>
               fp_lt (f_lit 0) (fadd binary32 (filter_rc (cutoff_freq st')) dt') \<and>
               \<not> fp_eq (fadd binary32 (filter_rc (cutoff_freq st')) dt') (f_lit 0)))))"
proof (intro conjI impI)
  assume run: "plugin_process m state_ptr ffb_in wheel_speed wheel_angle dt ffb_out = Some (r, m')"
  from plugin_process_result [OF run] show "r \<noteq> 0 \<Longrightarrow> m' = m" by blast
  from plugin_process_result [OF run]
  show "\<forall>b st. states m b = Some st \<longrightarrow>
         (\<exists>st'. states m' b = Some st' \<and>
            (ffb_out \<noteq> Some (Inside b At_cutoff_freq) \<longrightarrow> cutoff_freq st' = cutoff_freq st) \<and>
            (ffb_out \<noteq> Some (Inside b At_sample_rate) \<longrightarrow> sample_rate st' = sample_rate st) \<and>
            (clear_of_config ffb_out \<longrightarrow>
               (\<exists>y n. st' = st\<lparr>previous_output := y, frame_count := n\<rparr>)))"
    by blast
next
  let ?m = "snd (plugin_create m0 (Some a) config config_len)"
  let ?st = "\<lparr>cutoff_freq = f_lit 50, sample_rate = f_lit 1000,
                previous_output = f_lit 0, frame_count = 0\<rparr>"
  assume ok: "\<forall>c\<in>set cs. call_ok ?m c"
  have st: "states ?m a = Some ?st" by (simp add: plugin_create_def)
  from process_calls_run [OF ok st]
  obtain m'' st' where run: "process_calls ?m cs = Some (map status_of cs, m'')"
    "states m'' a = Some st'"
    "(\<forall>c\<in>set cs. arg_ffb_out c \<noteq> Some (Inside a At_cutoff_freq)) \<longrightarrow>
       cutoff_freq st' = cutoff_freq ?st"
    "(\<forall>c\<in>set cs. arg_ffb_out c \<noteq> Some (Inside a At_sample_rate)) \<longrightarrow>
       sample_rate st' = sample_rate ?st"
    by blast
  have sr: "(\<forall>c\<in>set cs. arg_ffb_out c \<noteq> Some (Inside a At_sample_rate)) \<longrightarrow>
      sample_rate st' = f_lit 1000"
    using run(4) by simp
  have cf: "cutoff_freq st' = f_lit 50 \<and>
      fp_lt (f_lit 0) (cutoff_freq st') \<and>
      (\<forall>dt'. fp_le (f_lit 0) dt' \<longrightarrow>
         fp_lt (f_lit 0) (fadd binary32 (filter_rc (cutoff_freq st')) dt') \<and>
         \<not> fp_eq (fadd binary32 (filter_rc (cutoff_freq st')) dt') (f_lit 0))"
    if "\<forall>c\<in>set cs. arg_ffb_out c \<noteq> Some (Inside a At_cutoff_freq)"
  proof -
    from run(3) that have c: "cutoff_freq st' = f_lit 50" by simp
    have "fp_lt (f_lit 0) (cutoff_freq st')" by (simp add: c sval_def)
    moreover have "\<forall>dt'. fp_le (f_lit 0) dt' \<longrightarrow>
        fp_lt (f_lit 0) (fadd binary32 (filter_rc (cutoff_freq st')) dt') \<and>
        \<not> fp_eq (fadd binary32 (filter_rc (cutoff_freq st')) dt') (f_lit 0)"
      unfolding c using rc_plus_dt_positive by blast
    ultimately show ?thesis using c by blast
  qed
  from run(1,2) sr cf show "\<exists>m'' st'.
         process_calls ?m cs = Some (map status_of cs, m'') \<and>
         states m'' a = Some st' \<and>
         ((\<forall>c\<in>set cs. arg_ffb_out c \<noteq> Some (Inside a At_sample_rate)) \<longrightarrow>
            sample_rate st' = f_lit 1000) \<and>
         ((\<forall>c\<in>set cs. arg_ffb_out c \<noteq> Some (Inside a At_cutoff_freq)) \<longrightarrow>
            cutoff_freq st' = f_lit 50 \<and>
            fp_lt (f_lit 0) (cutoff_freq st') \<and>
            (\<forall>dt'. fp_le (f_lit 0) dt' \<longrightarrow>
               fp_lt (f_lit 0) (fadd binary32 (filter_rc (cutoff_freq st')) dt') \<and>
               \<not> fp_eq (fadd binary32 (filter_rc (cutoff_freq st')) dt') (f_lit 0)))"
    by blast
qed

text \<open>
  The example tick keeps cutoff and sample rate, and so does a tick whose output pointer
  designates the member \<open>previous_output\<close> of the instance; after two ticks the instance
  still has them, and with \<open>dt = 2\<^sup>-\<^sup>1\<^sup>0\<close> the divisor is positive.
\<close>

theorem process_preserves_cutoff_witness:
  "(\<exists>m' st'.
      plugin_process inst0 (Some 0) (f_lit 1) (f_lit 0) (f_lit 0) (f_lit (1 / 1024))
        (Some (Outside 0)) = Some (0, m') \<and>
      states m' 0 = Some st' \<and> cutoff_freq st' = f_lit 50 \<and> sample_rate st' = f_lit 1000 \<and>
      (\<exists>y n. st' = \<lparr>cutoff_freq = f_lit 50, sample_rate = f_lit 1000,
                  previous_output = y, frame_count = n\<rparr>)) \<and>
   (\<exists>m' st'.
      plugin_process inst0 (Some 0) (f_lit 1) (f_lit 0) (f_lit 0) (f_lit (1 / 1024))
        (Some (Inside 0 At_previous_output)) = Some (0, m') \<and>
      states m' 0 = Some st' \<and> cutoff_freq st' = f_lit 50 \<and> sample_rate st' = f_lit 1000 \<and>
      (\<exists>y n. st' = \<lparr>cutoff_freq = f_lit 50, sample_rate = f_lit 1000,
                  previous_output = y, frame_count = n\<rparr>)) \<and>
   (\<exists>m'' st'.
      process_calls inst0 [tick0, tick0] = Some ([0, 0], m'') \<and>
      states m'' 0 = Some st' \<and> cutoff_freq st' = f_lit 50 \<and> sample_rate st' = f_lit 1000 \<and>
      fp_lt (f_lit 0) (fadd binary32 (filter_rc (f_lit 50)) (f_lit (1 / 1024))))"
proof -
  let ?own = "inst0\<lparr>states := (states inst0)(0 \<mapsto>
      \<lparr>cutoff_freq = f_lit 50, sample_rate = f_lit 1000,
       previous_output = Fin False (1969391 / 8388608), frame_count = 1\<rparr>)\<rparr>"
  note at0 = process_preserves_cutoff [where m = inst0 and state_ptr = "Some 0"
      and ffb_in = "f_lit 1" and wheel_speed = "f_lit 0" and wheel_angle = "f_lit 0"
      and dt = "f_lit (1 / 1024)" and ffb_out = "Some (Outside 0)" and r = 0
      and m' = ran0
      and cs = "[tick0, tick0]" and m0 = host0 and a = 0 and config = None and config_len = 0]
  note at1 = process_preserves_cutoff [where m = inst0 and state_ptr = "Some 0"
      and ffb_in = "f_lit 1" and wheel_speed = "f_lit 0" and wheel_angle = "f_lit 0"
      and dt = "f_lit (1 / 1024)" and ffb_out = "Some (Inside 0 At_previous_output)" and r = 0
      and m' = ?own]
  have own: "plugin_process inst0 (Some 0) (f_lit 1) (f_lit 0) (f_lit 0) (f_lit (1 / 1024))
      (Some (Inside 0 At_previous_output)) = Some (0, ?own)"
    unfolding process_inside_same [OF inst0_state(1)]
    by (simp add: inst0_state output_50_value)
  have ok: "\<forall>c\<in>set [tick0, tick0]. call_ok (snd (plugin_create host0 (Some 0) None 0)) c"
    using tick0_ok(1) by (simp add: inst0_def)
  have s: "map status_of [tick0, tick0] = [0, 0]" by (simp add: status_of_def tick0_def)
  have le: "fp_le (f_lit 0) (f_lit (1 / 1024))" by (simp add: fp_le_def sval_def)
  have clear: "\<forall>c\<in>set [tick0, tick0]. arg_ffb_out c \<noteq> Some (Inside 0 At_sample_rate)"
    "\<forall>c\<in>set [tick0, tick0]. arg_ffb_out c \<noteq> Some (Inside 0 At_cutoff_freq)"
    by (simp_all add: tick0_def)
  from at0 [THEN conjunct1, THEN mp, OF tick0_run] inst0_state(1)
  have "\<exists>st'. states ran0 0 = Some st' \<and> cutoff_freq st' = f_lit 50 \<and>
      sample_rate st' = f_lit 1000 \<and>
      (\<exists>y n. st' = \<lparr>cutoff_freq = f_lit 50, sample_rate = f_lit 1000,
                  previous_output = y, frame_count = n\<rparr>)"
    by fastforce
  with tick0_run have 1: "\<exists>m' st'.
      plugin_process inst0 (Some 0) (f_lit 1) (f_lit 0) (f_lit 0) (f_lit (1 / 1024))
        (Some (Outside 0)) = Some (0, m') \<and>
      states m' 0 = Some st' \<and> cutoff_freq st' = f_lit 50 \<and> sample_rate st' = f_lit 1000 \<and>
      (\<exists>y n. st' = \<lparr>cutoff_freq = f_lit 50, sample_rate = f_lit 1000,
                  previous_output = y, frame_count = n\<rparr>)"
    by blast
  from at1 [THEN conjunct1, THEN mp, OF own] inst0_state(1)
  have "\<exists>st'. states ?own 0 = Some st' \<and> cutoff_freq st' = f_lit 50 \<and>
      sample_rate st' = f_lit 1000 \<and>
      (\<exists>y n. st' = \<lparr>cutoff_freq = f_lit 50, sample_rate = f_lit 1000,
                  previous_output = y, frame_count = n\<rparr>)"
    by fastforce
  with own have 2: "\<exists>m' st'.
      plugin_process inst0 (Some 0) (f_lit 1) (f_lit 0) (f_lit 0) (f_lit (1 / 1024))
        (Some (Inside 0 At_previous_output)) = Some (0, m') \<and>
      states m' 0 = Some st' \<and> cutoff_freq st' = f_lit 50 \<and> sample_rate st' = f_lit 1000 \<and>
      (\<exists>y n. st' = \<lparr>cutoff_freq = f_lit 50, sample_rate = f_lit 1000,
                  previous_output = y, frame_count = n\<rparr>)"
    by blast
  from at0 [THEN conjunct2, THEN mp, OF ok] le clear
  have 3: "\<exists>m'' st'.
      process_calls inst0 [tick0, tick0] = Some ([0, 0], m'') \<and>
      states m'' 0 = Some st' \<and> cutoff_freq st' = f_lit 50 \<and> sample_rate st' = f_lit 1000 \<and>
      fp_lt (f_lit 0) (fadd binary32 (filter_rc (f_lit 50)) (f_lit (1 / 1024)))"
    unfolding s inst0_def [symmetric] by fastforce
  from 1 2 3 show ?thesis by (intro conjI)
qed

text \<open>
  The handle of the example instance, passed as the output pointer as well: converted to
  a pointer to float it designates the member \<open>cutoff_freq\<close>, a live float.  The call
  succeeds, and the cutoff of the instance is no longer 50 but the output of the tick.
\<close>

theorem process_output_into_cutoff_counterexample:
  "load_float inst0 (Inside 0 At_cutoff_freq) = Some (f_lit 50) \<and>
   plugin_process inst0 (Some 0) (f_lit 1) (f_lit 0) (f_lit 0) (f_lit (1 / 1024))
     (Some (Inside 0 At_cutoff_freq)) =
     Some (0, inst0\<lparr>states := (states inst0)(0 \<mapsto>
                 \<lparr>cutoff_freq = Fin False (1969391 / 8388608), sample_rate = f_lit 1000,
                  previous_output = Fin False (1969391 / 8388608), frame_count = 1\<rparr>)\<rparr>) \<and>
   Fin False (1969391 / 8388608) \<noteq> f_lit 50"
  unfolding process_inside_same [OF inst0_state(1)]
  by (simp add: inst0_state output_50_value)

end
